theory Spec2Isabelle
  imports Main "HOL-Library.Product_Lexorder"
begin

section \<open>Events (\<open>src/event.py\<close>)\<close>

text \<open>
  An \<open>Event\<close> carries a time, a tie-break priority and the process to run. The times of
  the simulator are integers; the priority is any value of a linearly ordered type (the
  integers, or the integers with the \<open>math.inf\<close> that the constructor takes as default),
  so unordered values such as a floating point NaN are outside the model. The process is
  an opaque handle, never read by the comparisons.
\<close>

type_synonym process = nat

record 'p Event =
  time :: int
  priority :: 'p
  process :: process

definition Event_eq :: "('p::linorder) Event \<Rightarrow> 'p Event \<Rightarrow> bool" where
  "Event_eq self another \<longleftrightarrow>
     (time self = time another) \<and> (priority self = priority another)"

definition Event_ne :: "('p::linorder) Event \<Rightarrow> 'p Event \<Rightarrow> bool" where
  "Event_ne self another \<longleftrightarrow>
     (time self \<noteq> time another) \<or> (priority self \<noteq> priority another)"

definition Event_gt :: "('p::linorder) Event \<Rightarrow> 'p Event \<Rightarrow> bool" where
  "Event_gt self another \<longleftrightarrow>
     (time self > time another) \<or>
     (time self = time another \<and> priority self > priority another)"

definition Event_lt :: "('p::linorder) Event \<Rightarrow> 'p Event \<Rightarrow> bool" where
  "Event_lt self another \<longleftrightarrow>
     (time self < time another) \<or>
     (time self = time another \<and> priority self < priority another)"

text \<open>The key the specification orders events by.\<close>

definition event_key :: "('p::linorder) Event \<Rightarrow> int \<times> 'p" where
  "event_key e = (time e, priority e)"


section \<open>Resource management (\<open>src/protocols/management/manager.py\<close>)\<close>

subsection \<open>Handles, errors and messages\<close>

text \<open>
  Protocols and memories are objects compared by identity; the model names each by a
  handle. A memory's handle is its slot index in the node's memory array.
\<close>

type_synonym protocol = nat
type_synonym memory = nat

datatype error =
  Exception | KeyError | ValueError | TypeError | IndexError
  | AssertionError | NotImplementedError

text \<open>
  Modelled from the spec: the states of a \<open>MemoryInfo\<close>; the class is imported from
  \<open>rule_manager\<close>, which is not among the sources.
\<close>

datatype mem_state = RAW | OCCUPIED | ENTANGLED | EXPIRED

text \<open>
  A \<open>ResourceManagerMessage\<close> is one of two variants. The receiver is always the string
  \<open>resource_manager\<close> and is not kept. The condition function of a request is applied
  to a protocol and its result is used as a truth value.
\<close>

datatype message =
  REQUEST protocol "protocol \<Rightarrow> bool"
  | RESPONSE protocol bool "protocol option"

text \<open>The keyword arguments of the constructor: a dictionary, each key present or not.\<close>

record kwargs =
  kw_protocol :: "protocol option"
  kw_req_condition_fun :: "(protocol \<Rightarrow> bool) option"
  kw_is_approved :: "bool option"
  kw_paired_protocol :: "protocol option option"

definition ResourceManagerMessage_init ::
  "string \<Rightarrow> string \<Rightarrow> kwargs \<Rightarrow> error + message" where
  "ResourceManagerMessage_init msg_type receiver kw =
     (case kw_protocol kw of
        None \<Rightarrow> Inl KeyError
      | Some ini_protocol \<Rightarrow>
          if msg_type = ''REQUEST'' then
            (case kw_req_condition_fun kw of
               None \<Rightarrow> Inl KeyError
             | Some f \<Rightarrow> Inr (REQUEST ini_protocol f))
          else if msg_type = ''RESPONSE'' then
            (case kw_is_approved kw of
               None \<Rightarrow> Inl KeyError
             | Some a \<Rightarrow>
                 (case kw_paired_protocol kw of
                    None \<Rightarrow> Inl KeyError
                  | Some q \<Rightarrow> Inr (RESPONSE ini_protocol a q)))
          else Inl Exception)"

subsection \<open>The manager's state\<close>

text \<open>
  Modelled from the spec: the classes \<open>MemoryManager\<close>, \<open>MemoryInfo\<close>, \<open>RuleManager\<close>,
  \<open>Rule\<close>, \<open>Protocol\<close> and \<open>Node\<close> are not among the sources. Every call the manager
  makes on one of them that has an effect is appended to a log, in the order the calls
  are made. The calls \<open>set_others\<close> and \<open>start\<close> on a protocol and \<open>send_message\<close> on
  the node return and leave the manager's own fields as they are; \<open>release\<close> is
  modelled below.
\<close>

datatype call =
  MemoryUpdate memory mem_state
  | ToOccupied memory
  | RuleDo nat protocol "memory list"
  | SetOthers protocol "protocol option"
  | Start protocol
  | Release protocol
  | SendMessage string message

text \<open>
  Modelled from the spec: a \<open>Rule\<close> is a predicate and an action. The predicate is
  applied to a \<open>MemoryInfo\<close>, here the slot index together with the current states of all
  slots (the object is shared and mutable, so the predicate sees the states of the
  moment it is called), and returns the claimed memories. Rules are told apart by
  \<open>rule_id\<close>.
\<close>

record rule =
  rule_id :: nat
  is_valid :: "mem_state list \<Rightarrow> memory \<Rightarrow> memory list"

text \<open>
  \<open>memory_manager\<close> holds the state of every \<open>MemoryInfo\<close> in slot order, \<open>rule_manager\<close>
  the loaded rules in registration order, \<open>protocols\<close> is the owner node's list of
  active protocols, and \<open>created\<close> counts the protocols that rule actions have
  produced. The field \<open>memory_to_protocol_map\<close> of the source is never read or written
  and is left out.
\<close>

record resource_manager =
  memory_manager :: "mem_state list"
  rule_manager :: "rule list"
  pending_protocols :: "protocol list"
  waiting_protocols :: "protocol list"
  protocols :: "protocol list"
  calls :: "call list"
  created :: nat

definition ResourceManager_init :: "mem_state list \<Rightarrow> protocol list \<Rightarrow> resource_manager" where
  "ResourceManager_init memory_array owner_protocols =
     \<lparr>memory_manager = memory_array, rule_manager = [],
      pending_protocols = [], waiting_protocols = [],
      protocols = owner_protocols, calls = [], created = 0\<rparr>"

text \<open>Python's \<open>list.remove\<close>: the first equal element goes, and a missing one raises.\<close>

definition list_remove :: "'a \<Rightarrow> 'a list \<Rightarrow> 'a list option" where
  "list_remove x xs = (if x \<in> set xs then Some (remove1 x xs) else None)"

definition log_call :: "call \<Rightarrow> resource_manager \<Rightarrow> resource_manager" where
  "log_call c rm = rm\<lparr>calls := calls rm @ [c]\<rparr>"

text \<open>
  Modelled from the spec: \<open>MemoryInfo.to_occupied\<close> sets the state of that slot to
  \<open>OCCUPIED\<close>.
\<close>

definition to_occupied :: "memory \<Rightarrow> resource_manager \<Rightarrow> resource_manager" where
  "to_occupied m rm =
     log_call (ToOccupied m) (rm\<lparr>memory_manager := (memory_manager rm)[m := OCCUPIED]\<rparr>)"

text \<open>
  Modelled from the spec: \<open>Rule.do\<close> invokes the rule's action on the claim set, which
  produces a new \<open>Protocol\<close>. The new protocol gets the next unused handle.
\<close>

definition Rule_do :: "rule \<Rightarrow> memory list \<Rightarrow> resource_manager \<Rightarrow> resource_manager" where
  "Rule_do r memories rm =
     log_call (RuleDo (rule_id r) (created rm) memories) (rm\<lparr>created := Suc (created rm)\<rparr>)"

text \<open>
  Modelled from the spec: \<open>MemoryManager.update\<close> writes the new state of the memory's
  \<open>MemoryInfo\<close>. A memory that is no slot of the node has no \<open>MemoryInfo\<close>; the model
  reports it as a \<open>KeyError\<close> before anything changes.
\<close>

definition MemoryManager_update ::
  "memory \<Rightarrow> mem_state \<Rightarrow> resource_manager \<Rightarrow> resource_manager option" where
  "MemoryManager_update m st rm =
     (if m < length (memory_manager rm)
      then Some (log_call (MemoryUpdate m st)
                   (rm\<lparr>memory_manager := (memory_manager rm)[m := st]\<rparr>))
      else None)"

subsection \<open>\<open>ResourceManager.load\<close>\<close>

text \<open>
  The loop over the memory manager visits the slots in index order. Each visit (the
  loop body, \<open>load_visit\<close>) applies the predicate to the states as they are then; a
  non-empty result marks the visited slot and then invokes the action.
\<close>

definition load_visit :: "rule \<Rightarrow> memory \<Rightarrow> resource_manager \<Rightarrow> resource_manager" where
  "load_visit r memory_info rm =
     (let memories = is_valid r (memory_manager rm) memory_info in
      if length memories > 0
      then Rule_do r memories (to_occupied memory_info rm)
      else rm)"

fun load_scan :: "rule \<Rightarrow> memory list \<Rightarrow> resource_manager \<Rightarrow> resource_manager" where
  "load_scan r [] rm = rm"
| "load_scan r (memory_info # rest) rm = load_scan r rest (load_visit r memory_info rm)"

text \<open>Modelled from the spec: \<open>RuleManager.load\<close> appends the rule to the ordered list.\<close>

definition RuleManager_load :: "rule \<Rightarrow> resource_manager \<Rightarrow> resource_manager" where
  "RuleManager_load r rm = rm\<lparr>rule_manager := rule_manager rm @ [r]\<rparr>"

definition load :: "resource_manager \<Rightarrow> rule \<Rightarrow> bool \<times> resource_manager" where
  "load rm r =
     (let rm1 = RuleManager_load r rm
      in (True, load_scan r [0..<length (memory_manager rm1)] rm1))"

subsection \<open>\<open>ResourceManager.update\<close>\<close>

text \<open>
  A call either returns a value or raises; in both cases the state it leaves behind is
  part of the result, since an exception does not undo the writes made before it.
\<close>

fun update_scan :: "rule list \<Rightarrow> memory \<Rightarrow> resource_manager \<Rightarrow> resource_manager" where
  "update_scan [] memo_info rm = rm"
| "update_scan (r # rest) memo_info rm =
     (let memories = is_valid r (memory_manager rm) memo_info in
      if length memories > 0
      then to_occupied memo_info (Rule_do r memories rm)
      else update_scan rest memo_info rm)"

definition update ::
  "resource_manager \<Rightarrow> protocol \<Rightarrow> memory \<Rightarrow> mem_state \<Rightarrow> (error + bool) \<times> resource_manager" where
  "update rm protocol memory state =
     (case MemoryManager_update memory state rm of
        None \<Rightarrow> (Inl KeyError, rm)
      | Some rm1 \<Rightarrow>
          (case list_remove protocol (protocols rm1) of
             None \<Rightarrow> (Inl ValueError, rm1)
           | Some ps \<Rightarrow>
               (let rm2 = rm1\<lparr>protocols := ps\<rparr>
                in (Inr True, update_scan (rule_manager rm2) memory rm2))))"

subsection \<open>\<open>Protocol.release\<close>\<close>

text \<open>
  Modelled from the spec: the class \<open>Protocol\<close> is not among the sources. The memories a
  protocol holds are the claim set that its rule action was invoked on; a protocol that
  no rule action produced holds none.
\<close>

fun protocol_memories :: "call list \<Rightarrow> protocol \<Rightarrow> memory list" where
  "protocol_memories [] p = []"
| "protocol_memories (RuleDo rid q memories # cs) p =
     (if q = p then memories else protocol_memories cs p)"
| "protocol_memories (c # cs) p = protocol_memories cs p"

text \<open>
  Modelled from the spec: \<open>Protocol.release\<close> returns the protocol's memories to idle
  (state \<open>RAW\<close>) by the release path of \<open>update\<close>: one call of
  \<open>ResourceManager.update\<close> for each memory it holds, in the order of the claim set. An
  exception raised by \<open>update\<close> leaves \<open>release\<close> at once.
\<close>

fun release_memories ::
  "protocol \<Rightarrow> memory list \<Rightarrow> resource_manager \<Rightarrow> (error + unit) \<times> resource_manager" where
  "release_memories p [] rm = (Inr (), rm)"
| "release_memories p (m # ms) rm =
     (case update rm p m RAW of
        (Inl e, rm1) \<Rightarrow> (Inl e, rm1)
      | (Inr ok, rm1) \<Rightarrow> release_memories p ms rm1)"

definition Protocol_release ::
  "protocol \<Rightarrow> resource_manager \<Rightarrow> (error + unit) \<times> resource_manager" where
  "Protocol_release p rm =
     release_memories p (protocol_memories (calls rm) p) (log_call (Release p) rm)"

subsection \<open>\<open>ResourceManager.send_request\<close> and \<open>received_message\<close>\<close>

definition send_message :: "string \<Rightarrow> message \<Rightarrow> resource_manager \<Rightarrow> resource_manager" where
  "send_message dst msg rm = log_call (SendMessage dst msg) rm"

definition send_request ::
  "resource_manager \<Rightarrow> protocol \<Rightarrow> string option \<Rightarrow> (protocol \<Rightarrow> bool)
     \<Rightarrow> (error + unit) \<times> resource_manager" where
  "send_request rm protocol req_dst req_condition_func =
     (case req_dst of
        None \<Rightarrow> (Inr (), rm\<lparr>waiting_protocols := waiting_protocols rm @ [protocol]\<rparr>)
      | Some dst \<Rightarrow>
          (let rm1 = rm\<lparr>pending_protocols := pending_protocols rm @ [protocol]\<rparr> in
           case ResourceManagerMessage_init ''REQUEST'' ''resource_manager''
                  \<lparr>kw_protocol = Some protocol,
                   kw_req_condition_fun = Some req_condition_func,
                   kw_is_approved = None, kw_paired_protocol = None\<rparr> of
             Inl e \<Rightarrow> (Inl e, rm1)
           | Inr msg \<Rightarrow> (Inr (), send_message dst msg rm1)))"

text \<open>The scan of the waiting list: the first protocol the condition accepts, if any.\<close>

fun first_accepted :: "(protocol \<Rightarrow> bool) \<Rightarrow> protocol list \<Rightarrow> protocol option" where
  "first_accepted f [] = None"
| "first_accepted f (p # ps) = (if f p then Some p else first_accepted f ps)"

definition response_msg :: "protocol \<Rightarrow> bool \<Rightarrow> protocol option \<Rightarrow> error + message" where
  "response_msg ini approved paired =
     ResourceManagerMessage_init ''RESPONSE'' ''resource_manager''
       \<lparr>kw_protocol = Some ini, kw_req_condition_fun = None,
        kw_is_approved = Some approved, kw_paired_protocol = Some paired\<rparr>"

definition received_message ::
  "resource_manager \<Rightarrow> string \<Rightarrow> message \<Rightarrow> (error + unit) \<times> resource_manager" where
  "received_message rm src msg =
     (case msg of
        REQUEST ini_protocol req_condition_fun \<Rightarrow>
          (case first_accepted req_condition_fun (waiting_protocols rm) of
             Some protocol \<Rightarrow>
               (let rm1 = log_call (SetOthers protocol (Some ini_protocol)) rm in
                case response_msg ini_protocol True (Some protocol) of
                  Inl e \<Rightarrow> (Inl e, rm1)
                | Inr new_msg \<Rightarrow>
                    (let rm2 = send_message src new_msg rm1 in
                     case list_remove protocol (waiting_protocols rm2) of
                       None \<Rightarrow> (Inl ValueError, rm2)
                     | Some ws \<Rightarrow>
                         (Inr (),
                          log_call (Start protocol)
                            (rm2\<lparr>waiting_protocols := ws,
                                 protocols := protocols rm2 @ [protocol]\<rparr>))))
           | None \<Rightarrow>
               (case response_msg ini_protocol False None of
                  Inl e \<Rightarrow> (Inl e, rm)
                | Inr new_msg \<Rightarrow> (Inr (), send_message src new_msg rm)))
      | RESPONSE protocol is_approved paired_protocol \<Rightarrow>
          (if is_approved then
             (let rm1 = log_call (SetOthers protocol paired_protocol) rm in
              case list_remove protocol (pending_protocols rm1) of
                None \<Rightarrow> (Inl ValueError, rm1)
              | Some ps \<Rightarrow>
                  (Inr (),
                   log_call (Start protocol)
                     (rm1\<lparr>pending_protocols := ps,
                          protocols := protocols rm1 @ [protocol]\<rparr>)))
           else
             (case Protocol_release protocol rm of
                (Inl e, rm1) \<Rightarrow> (Inl e, rm1)
              | (Inr released, rm1) \<Rightarrow>
                  (case list_remove protocol (pending_protocols rm1) of
                     None \<Rightarrow> (Inl ValueError, rm1)
                   | Some ps \<Rightarrow> (Inr (), rm1\<lparr>pending_protocols := ps\<rparr>)))))"


subsection \<open>Sequences of calls\<close>

text \<open>
  The calls a node and its protocols make on the manager. A call that raises leaves the
  state it had reached; the next call starts from there.
\<close>

datatype op =
  Load rule
  | Update protocol memory mem_state
  | SendRequest protocol "string option" "protocol \<Rightarrow> bool"
  | ReceivedMessage string message

fun step :: "resource_manager \<Rightarrow> op \<Rightarrow> resource_manager" where
  "step rm (Load r) = snd (load rm r)"
| "step rm (Update p m st) = snd (update rm p m st)"
| "step rm (SendRequest p dst f) = snd (send_request rm p dst f)"
| "step rm (ReceivedMessage src msg) = snd (received_message rm src msg)"

definition run :: "resource_manager \<Rightarrow> op list \<Rightarrow> resource_manager" where
  "run rm ops = foldl step rm ops"

text \<open>
  How often a protocol occurs in the three collections together, and in how many of
  them it occurs.
\<close>

definition occurrences :: "resource_manager \<Rightarrow> protocol \<Rightarrow> nat" where
  "occurrences rm p =
     count_list (pending_protocols rm) p + count_list (waiting_protocols rm) p
       + count_list (protocols rm) p"

definition collections_holding :: "resource_manager \<Rightarrow> protocol \<Rightarrow> nat" where
  "collections_holding rm p =
     (if p \<in> set (pending_protocols rm) then 1 else 0)
       + (if p \<in> set (waiting_protocols rm) then 1 else 0)
       + (if p \<in> set (protocols rm) then 1 else 0)"

text \<open>
  A sequence of calls in which \<open>send_request\<close> is only made for a protocol that is in
  none of the collections at that moment.
\<close>

fun requests_fresh :: "resource_manager \<Rightarrow> op list \<Rightarrow> bool" where
  "requests_fresh rm [] = True"
| "requests_fresh rm (c # cs) =
     ((case c of SendRequest p dst f \<Rightarrow> occurrences rm p = 0 | _ \<Rightarrow> True)
        \<and> requests_fresh (step rm c) cs)"

text \<open>The calls that take a protocol out of the collections altogether.\<close>

fun releases :: "op \<Rightarrow> protocol \<Rightarrow> bool" where
  "releases (Update p m st) q = (p = q)"
| "releases (ReceivedMessage src (RESPONSE p approved paired)) q = (p = q \<and> \<not> approved)"
| "releases c q = False"

fun enters :: "op \<Rightarrow> protocol \<Rightarrow> bool" where
  "enters (SendRequest p dst f) q = (p = q)"
| "enters c q = False"

text \<open>
  The protocols that hold a claim on a memory, read off the log: a rule action that is
  invoked on a claim set produces a protocol holding every memory of that set, and a
  memory is held until \<open>update\<close> writes its state again.
\<close>

fun claim_step :: "call \<Rightarrow> (memory \<Rightarrow> protocol list) \<Rightarrow> (memory \<Rightarrow> protocol list)" where
  "claim_step (MemoryUpdate m st) h = h(m := [])"
| "claim_step (RuleDo rid p memories) h = (\<lambda>m. if m \<in> set memories then h m @ [p] else h m)"
| "claim_step c h = h"

definition claimants :: "call list \<Rightarrow> memory \<Rightarrow> protocol list" where
  "claimants log = fold claim_step log (\<lambda>m. [])"

text \<open>
  A rule whose predicate claims at most the memory it is applied to, and nothing when
  that memory is occupied.
\<close>

definition claims_own_free_slot :: "rule \<Rightarrow> bool" where
  "claims_own_free_slot r \<longleftrightarrow>
     (\<forall>states i. i < length states \<longrightarrow>
        is_valid r states i = []
        \<or> (is_valid r states i = [i] \<and> states ! i \<noteq> OCCUPIED))"

text \<open>
  The invariant behind exclusive claims: every memory has at most one claimant, a
  claimed memory is a slot of the node in state \<open>OCCUPIED\<close>, and every loaded rule
  claims only its own free slot.
\<close>

definition claim_inv :: "resource_manager \<Rightarrow> bool" where
  "claim_inv rm \<longleftrightarrow>
     (\<forall>m. length (claimants (calls rm) m) \<le> 1
          \<and> (claimants (calls rm) m \<noteq> [] \<longrightarrow>
               m < length (memory_manager rm) \<and> memory_manager rm ! m = OCCUPIED))
     \<and> (\<forall>r\<in>set (rule_manager rm). claims_own_free_slot r)"

text \<open>The rule actions invoked, in order: the rule and the claim set of each.\<close>

fun rule_invocations :: "call list \<Rightarrow> (nat \<times> memory list) list" where
  "rule_invocations [] = []"
| "rule_invocations (RuleDo rid p memories # cs) = (rid, memories) # rule_invocations cs"
| "rule_invocations (c # cs) = rule_invocations cs"

text \<open>
  The states that \<open>load\<close> shows the predicate at slot \<open>i\<close>: the slots before \<open>i\<close> as the
  scan leaves them, the others as they were before the call.
\<close>

definition seen_at :: "mem_state list \<Rightarrow> mem_state list \<Rightarrow> nat \<Rightarrow> mem_state list" where
  "seen_at before after i = take i after @ drop i before"

section \<open>Loading a router network (\<open>src/topology/router_net_topo.py\<close>)\<close>

text \<open>
  The configuration as the JSON file gives it, with the keys the loader reads. A key
  read with \<open>config.get\<close> may be absent. A group id is any integer the file holds.
\<close>

record group_conf =
  group_type :: string

record node_conf =
  node_seed :: int
  node_type :: string
  node_group :: int
  node_name :: string
  memo_size :: "nat option"

record config =
  stop_time :: "int option"
  is_parallel :: "bool option"
  process_num :: int
  groups :: "group_conf list"
  lookahead :: int
  ip :: string
  port :: int
  nodes :: "node_conf list"
  qchannels :: "(string \<times> string) list"

definition BSM_NODE :: string where "BSM_NODE = ''BSMNode''"
definition QUANTUM_ROUTER :: string where "QUANTUM_ROUTER = ''QuantumRouter''"
definition SYNC :: string where "SYNC = ''sync''"
definition ASYNC :: string where "ASYNC = ''async''"

text \<open>
  The timelines and nodes are built by constructors that are not among the sources; the
  model keeps which constructor was called and with what. A stop time of \<open>None\<close> is the
  default, infinity.
\<close>

datatype timeline =
  Timeline "int option"
  | ParallelTimeline int string int "int option"
  | AsyncParallelTimeline int string int "int option"

datatype node_obj =
  BSMNode string "string list" int
  | QuantumRouter string "nat option" int

record topo =
  tl :: "timeline option"
  bsm_to_router_map :: "string \<rightharpoonup> string list"
  topo_nodes :: "string \<rightharpoonup> node_obj list"
  foreign_entities :: "(string \<times> int) list"

definition RouterNetTopo_init :: topo where
  "RouterNetTopo_init =
     \<lparr>tl = None, bsm_to_router_map = Map.empty, topo_nodes = Map.empty,
      foreign_entities = []\<rparr>"

text \<open>Indexing a list by a rank, which MPI gives as a natural number.\<close>

definition list_get :: "'a list \<Rightarrow> nat \<Rightarrow> error + 'a" where
  "list_get xs i = (if i < length xs then Inr (xs ! i) else Inl IndexError)"

text \<open>
  \<open>rank\<close> and \<open>comm_size\<close> are the rank and the size that \<open>MPI.COMM_WORLD\<close> reports to
  this process. The \<open>assert\<close> statements are taken as enabled, as they are unless Python
  runs with optimisation.
\<close>

definition add_timeline :: "nat \<Rightarrow> nat \<Rightarrow> config \<Rightarrow> topo \<Rightarrow> error + topo" where
  "add_timeline rank comm_size cfg self =
     (if (case is_parallel cfg of None \<Rightarrow> False | Some b \<Rightarrow> b) then
        (if int comm_size \<noteq> process_num cfg then Inl AssertionError
         else
           (case list_get (groups cfg) rank of
              Inl e \<Rightarrow> Inl e
            | Inr g \<Rightarrow>
                (let tl_type = group_type g in
                 if tl_type = SYNC then
                   Inr (self\<lparr>tl := Some (ParallelTimeline (lookahead cfg) (ip cfg) (port cfg)
                                           (stop_time cfg))\<rparr>)
                 else if tl_type = ASYNC then
                   Inr (self\<lparr>tl := Some (AsyncParallelTimeline (lookahead cfg) (ip cfg)
                                           (port cfg) (stop_time cfg))\<rparr>)
                 else Inl NotImplementedError)))
      else Inr (self\<lparr>tl := Some (Timeline (stop_time cfg))\<rparr>))"

fun map_bsm_routers :: "(string \<times> string) list \<Rightarrow> topo \<Rightarrow> topo" where
  "map_bsm_routers [] self = self"
| "map_bsm_routers ((src, dst) # rest) self =
     map_bsm_routers rest
       (case bsm_to_router_map self dst of
          Some routers \<Rightarrow>
            self\<lparr>bsm_to_router_map := (bsm_to_router_map self)(dst \<mapsto> routers @ [src])\<rparr>
        | None \<Rightarrow> self\<lparr>bsm_to_router_map := (bsm_to_router_map self)(dst \<mapsto> [src])\<rparr>)"

definition store_node :: "string \<Rightarrow> node_obj \<Rightarrow> topo \<Rightarrow> topo" where
  "store_node ty node_obj self =
     (case topo_nodes self ty of
        Some objs \<Rightarrow> self\<lparr>topo_nodes := (topo_nodes self)(ty \<mapsto> objs @ [node_obj])\<rparr>
      | None \<Rightarrow> self\<lparr>topo_nodes := (topo_nodes self)(ty \<mapsto> [node_obj])\<rparr>)"

fun add_nodes :: "nat \<Rightarrow> nat \<Rightarrow> node_conf list \<Rightarrow> topo \<Rightarrow> error + topo" where
  "add_nodes rank comm_size [] self = Inr self"
| "add_nodes rank comm_size (node # rest) self =
     (if \<not> node_group node < int comm_size then Inl AssertionError
      else if node_group node = int rank then
        (if node_type node = BSM_NODE then
           (case bsm_to_router_map self (node_name node) of
              None \<Rightarrow> Inl KeyError
            | Some others \<Rightarrow>
                add_nodes rank comm_size rest
                  (store_node (node_type node)
                     (BSMNode (node_name node) others (node_seed node)) self))
         else if node_type node = QUANTUM_ROUTER then
           (let size_given = (case memo_size node of None \<Rightarrow> 0 | Some n \<Rightarrow> n) in
            add_nodes rank comm_size rest
              (store_node (node_type node)
                 (QuantumRouter (node_name node)
                    (if size_given \<noteq> 0 then Some size_given else None) (node_seed node))
                 self))
         else Inl NotImplementedError)
      else
        add_nodes rank comm_size rest
          (self\<lparr>foreign_entities :=
                  foreign_entities self @ [(node_name node, node_group node)]\<rparr>))"

text \<open>
  The first three steps of \<open>_load\<close>, in its order. The steps after them (channels,
  connections, forwarding tables) run only when none of these has raised.
\<close>

definition load_nodes :: "nat \<Rightarrow> nat \<Rightarrow> config \<Rightarrow> topo \<Rightarrow> error + topo" where
  "load_nodes rank comm_size cfg self =
     (case add_timeline rank comm_size cfg self of
        Inl e \<Rightarrow> Inl e
      | Inr self1 \<Rightarrow> add_nodes rank comm_size (nodes cfg) (map_bsm_routers (qchannels cfg) self1))"

section \<open>The swap protocol's messages (\<open>src/entanglement_swap.py\<close>)\<close>

text \<open>
  Python's \<open>str.split(" ")\<close>: the text between single spaces, empty pieces kept, and
  at least one piece.
\<close>

fun split_space :: "string \<Rightarrow> string list" where
  "split_space [] = [[]]"
| "split_space (c # cs) =
     (if c = CHR '' '' then [] # split_space cs
      else (case split_space cs of
              [] \<Rightarrow> [[c]]
            | w # ws \<Rightarrow> (c # w) # ws))"

text \<open>
  Python's \<open>int\<close> on a string of ASCII characters: surrounding white space (tab, line
  feed, vertical tab, form feed, carriage return, space) is dropped, then an optional
  sign and decimal digits, where single underscores may stand between digits. Anything
  else is a \<open>ValueError\<close>, here \<open>None\<close>.
\<close>

definition is_digit :: "char \<Rightarrow> bool" where
  "is_digit c \<longleftrightarrow> 48 \<le> (of_char c :: nat) \<and> (of_char c :: nat) \<le> 57"

definition digit_val :: "char \<Rightarrow> nat" where
  "digit_val c = of_char c - 48"

definition is_space :: "char \<Rightarrow> bool" where
  "is_space c \<longleftrightarrow> (let n = (of_char c :: nat) in (9 \<le> n \<and> n \<le> 13) \<or> n = 32)"

fun py_digits :: "nat \<Rightarrow> string \<Rightarrow> nat option" where
  "py_digits acc [] = Some acc"
| "py_digits acc [c] = (if is_digit c then Some (acc * 10 + digit_val c) else None)"
| "py_digits acc (c # d # cs) =
     (if is_digit c then py_digits (acc * 10 + digit_val c) (d # cs)
      else if c = CHR ''_'' \<and> is_digit d then py_digits acc (d # cs)
      else None)"

definition py_unsigned :: "string \<Rightarrow> nat option" where
  "py_unsigned s =
     (case s of [] \<Rightarrow> None | c # cs \<Rightarrow> if is_digit c then py_digits 0 s else None)"

definition strip :: "string \<Rightarrow> string" where
  "strip s = rev (dropWhile is_space (rev (dropWhile is_space s)))"

definition py_int :: "string \<Rightarrow> int option" where
  "py_int s =
     (case strip s of
        [] \<Rightarrow> None
      | c # cs \<Rightarrow>
          if c = CHR ''-'' then map_option (\<lambda>n. - int n) (py_unsigned cs)
          else if c = CHR ''+'' then map_option int (py_unsigned cs)
          else map_option int (py_unsigned (c # cs)))"

text \<open>The fields of a \<open>Swap\<close> that the handling of \<open>got_bits\<close> refers to.\<close>

record swap =
  bit_lengths :: "int option list"
  sample_size :: int

definition Swap_init :: swap where
  "Swap_init = \<lparr>bit_lengths = [None, None], sample_size = 0\<rparr>"

text \<open>
  The branch for \<open>got_bits\<close>. After the sender is parsed, the source evaluates
  \<open>message(2)\<close>: it calls the list of tokens as if it were a function, which raises
  \<open>TypeError\<close> whatever the tokens are. The assignment to \<open>bit_lengths\<close> and the
  statements after it are therefore never reached.
\<close>

definition got_bits :: "swap \<Rightarrow> string list \<Rightarrow> error + swap" where
  "got_bits self message =
     (case list_get message 1 of
        Inl e \<Rightarrow> Inl e
      | Inr tok \<Rightarrow>
          (case py_int tok of
             None \<Rightarrow> Inl ValueError
           | Some sender \<Rightarrow> Inl TypeError))"

text \<open>
  \<open>Swap.received_message\<close> splits the node's message and tests its first token in four
  successive \<open>if\<close> statements. The bodies of the first three (which need the node's
  components and the timeline) are the parameter \<open>earlier\<close>; none of them leaves a list
  whose first token is \<open>got_bits\<close> behind, so the fourth test is made on the same tokens.
\<close>

definition Swap_received_message ::
  "(swap \<Rightarrow> string list \<Rightarrow> error + swap) \<Rightarrow> swap \<Rightarrow> string \<Rightarrow> error + swap" where
  "Swap_received_message earlier self raw =
     (let message = split_space raw in
      case message of
        [] \<Rightarrow> Inl IndexError
      | tag # rest \<Rightarrow>
          if tag = ''begin_entanglement_swap'' \<or> tag = ''received_photons''
             \<or> tag = ''bsm_result''
          then earlier self message
          else if tag = ''got_bits'' then got_bits self message
          else Inr self)"

text \<open>
  Following the specification's words, not the source: the intended field access reads
  the third token, \<open>message[2]\<close>, and stores it as an integer at \<open>bit_lengths[sender]\<close>
  (a list of two entries, which Python also indexes from the end with \<open>-1\<close> and \<open>-2\<close>).
\<close>

definition got_bits_intended :: "swap \<Rightarrow> string list \<Rightarrow> error + swap" where
  "got_bits_intended self message =
     (case list_get message 1 of
        Inl e \<Rightarrow> Inl e
      | Inr tok \<Rightarrow>
          (case py_int tok of
             None \<Rightarrow> Inl ValueError
           | Some sender \<Rightarrow>
               (case list_get message 2 of
                  Inl e \<Rightarrow> Inl e
                | Inr tok2 \<Rightarrow>
                    (case py_int tok2 of
                       None \<Rightarrow> Inl ValueError
                     | Some n \<Rightarrow>
                         (let len = int (length (bit_lengths self));
                              i = (if sender < 0 then len + sender else sender)
                          in if 0 \<le> i \<and> i < len
                             then Inr (self\<lparr>bit_lengths := (bit_lengths self)[nat i := Some n]\<rparr>)
                             else Inl IndexError)))))"

section \<open>Properties\<close>

subsection \<open>Events\<close>

text \<open>
  Claim C7. The comparison operators of \<open>Event\<close> are the lexicographic order on
  (time, priority): \<open>a < b\<close> holds exactly when the time of \<open>a\<close> is smaller, or the times
  are equal and the priority of \<open>a\<close> is smaller; \<open>a > b\<close> is \<open>b < a\<close>; \<open>a == b\<close> holds
  exactly when both fields agree; and of \<open>a < b\<close>, \<open>a == b\<close>, \<open>a > b\<close> exactly one holds.
  So the operators agree with the strict order and the equality of the keys, which is
  a total order, and \<open>!=\<close> is the negation of \<open>==\<close>.
\<close>

theorem Event_order:
  fixes a b :: "('p::linorder) Event"
  shows "(Event_lt a b \<longleftrightarrow> time a < time b \<or> (time a = time b \<and> priority a < priority b))
    \<and> (Event_gt a b \<longleftrightarrow> Event_lt b a)
    \<and> (Event_eq a b \<longleftrightarrow> time a = time b \<and> priority a = priority b)
    \<and> ((Event_lt a b \<and> \<not> Event_eq a b \<and> \<not> Event_gt a b)
        \<or> (\<not> Event_lt a b \<and> Event_eq a b \<and> \<not> Event_gt a b)
        \<or> (\<not> Event_lt a b \<and> \<not> Event_eq a b \<and> Event_gt a b))
    \<and> (Event_lt a b \<longleftrightarrow> event_key a < event_key b)
    \<and> (Event_eq a b \<longleftrightarrow> event_key a = event_key b)
    \<and> (Event_ne a b \<longleftrightarrow> \<not> Event_eq a b)"
  by (auto simp: Event_lt_def Event_gt_def Event_eq_def Event_ne_def event_key_def less_prod_def)

theorem Event_order_witness:
  "Event_lt \<lparr>time = 5, priority = (1::int), process = 0\<rparr> \<lparr>time = 5, priority = 2, process = 1\<rparr>
   \<and> \<not> Event_eq \<lparr>time = 5, priority = (1::int), process = 0\<rparr> \<lparr>time = 5, priority = 2, process = 1\<rparr>
   \<and> \<not> Event_gt \<lparr>time = 5, priority = (1::int), process = 0\<rparr> \<lparr>time = 5, priority = 2, process = 1\<rparr>"
  using Event_order [of "\<lparr>time = 5, priority = (1::int), process = 0\<rparr>"
                        "\<lparr>time = 5, priority = 2, process = 1\<rparr>"]
  by (simp add: Event_lt_def Event_eq_def Event_gt_def)

subsection \<open>Messages between resource managers\<close>

lemma msg_unknown: "msg_type \<noteq> ''REQUEST'' \<Longrightarrow> msg_type \<noteq> ''RESPONSE'' \<Longrightarrow>
  isl (ResourceManagerMessage_init msg_type receiver kw)"
  by (simp add: ResourceManagerMessage_init_def split: option.splits)

lemma response_msg_eq [simp]: "response_msg ini a q = Inr (RESPONSE ini a q)"
  by (simp add: response_msg_def ResourceManagerMessage_init_def)

lemma first_accepted_split:
  "(\<forall>x\<in>set xs. \<not> f x) \<Longrightarrow> f p \<Longrightarrow> first_accepted f (xs @ p # ys) = Some p"
  by (induction xs) auto

lemma first_accepted_none:
  "(\<forall>x\<in>set xs. \<not> f x) \<Longrightarrow> first_accepted f xs = None"
  by (induction xs) auto

lemma remove1_split:
  "p \<notin> set xs \<Longrightarrow> remove1 p (xs @ p # ys) = xs @ ys"
  by (induction xs) auto

text \<open>
  Claim C2. On a \<open>REQUEST\<close> the waiting list is scanned in insertion order. The first
  protocol the condition accepts is told its partner (the initiator), a \<open>RESPONSE\<close> with
  \<open>approved = True\<close> and that protocol as \<open>paired_protocol\<close> goes back to the sender, the
  protocol leaves the waiting list, is appended to the node's active protocols and is
  started. When the condition accepts no waiting protocol, a \<open>RESPONSE\<close> with
  \<open>approved = False\<close> is sent and nothing else changes. So of two successive requests
  that match one single waiting protocol the first is approved and the second rejected.
\<close>

theorem request_first_match:
  "(waiting_protocols rm = xs @ p # ys \<and> (\<forall>x\<in>set xs. \<not> cond x) \<and> cond p \<longrightarrow>
      received_message rm src (REQUEST ini cond) =
        (Inr (), rm\<lparr>waiting_protocols := xs @ ys,
                   protocols := protocols rm @ [p],
                   calls := calls rm @ [SetOthers p (Some ini),
                                         SendMessage src (RESPONSE ini True (Some p)),
                                         Start p]\<rparr>))
   \<and> ((\<forall>x\<in>set (waiting_protocols rm). \<not> cond x) \<longrightarrow>
      received_message rm src (REQUEST ini cond) =
        (Inr (), rm\<lparr>calls := calls rm @ [SendMessage src (RESPONSE ini False None)]\<rparr>))
   \<and> (waiting_protocols rm = [p] \<and> cond p \<and> cond' p \<longrightarrow>
      (let rm1 = rm\<lparr>waiting_protocols := [], protocols := protocols rm @ [p],
                       calls := calls rm @ [SetOthers p (Some ini),
                                             SendMessage src (RESPONSE ini True (Some p)),
                                             Start p]\<rparr>
       in received_message rm src (REQUEST ini cond) = (Inr (), rm1)
          \<and> received_message rm1 src' (REQUEST ini' cond') =
              (Inr (), rm1\<lparr>calls := calls rm1 @ [SendMessage src' (RESPONSE ini' False None)]\<rparr>)))"
proof (intro conjI impI)
  assume h: "waiting_protocols rm = xs @ p # ys \<and> (\<forall>x\<in>set xs. \<not> cond x) \<and> cond p"
  then have "p \<notin> set xs" by auto
  with h show "received_message rm src (REQUEST ini cond) =
        (Inr (), rm\<lparr>waiting_protocols := xs @ ys,
                   protocols := protocols rm @ [p],
                   calls := calls rm @ [SetOthers p (Some ini),
                                         SendMessage src (RESPONSE ini True (Some p)),
                                         Start p]\<rparr>)"
    by (simp add: received_message_def first_accepted_split list_remove_def log_call_def
        send_message_def remove1_split)
next
  assume "\<forall>x\<in>set (waiting_protocols rm). \<not> cond x"
  then show "received_message rm src (REQUEST ini cond) =
        (Inr (), rm\<lparr>calls := calls rm @ [SendMessage src (RESPONSE ini False None)]\<rparr>)"
    by (simp add: received_message_def first_accepted_none log_call_def send_message_def)
next
  assume "waiting_protocols rm = [p] \<and> cond p \<and> cond' p"
  then show "(let rm1 = rm\<lparr>waiting_protocols := [], protocols := protocols rm @ [p],
                       calls := calls rm @ [SetOthers p (Some ini),
                                             SendMessage src (RESPONSE ini True (Some p)),
                                             Start p]\<rparr>
       in received_message rm src (REQUEST ini cond) = (Inr (), rm1)
          \<and> received_message rm1 src' (REQUEST ini' cond') =
              (Inr (), rm1\<lparr>calls := calls rm1 @ [SendMessage src' (RESPONSE ini' False None)]\<rparr>))"
    by (simp add: received_message_def list_remove_def log_call_def send_message_def)
qed

theorem request_first_match_witness:
  "received_message ((ResourceManager_init [RAW] [])\<lparr>waiting_protocols := [1, 2, 3]\<rparr>) ''a''
       (REQUEST 9 (\<lambda>q. 2 \<le> q)) =
     (Inr (), (ResourceManager_init [RAW] [])\<lparr>waiting_protocols := [1, 3], protocols := [2],
         calls := [SetOthers 2 (Some 9), SendMessage ''a'' (RESPONSE 9 True (Some 2)), Start 2]\<rparr>)
   \<and> received_message ((ResourceManager_init [RAW] [])\<lparr>waiting_protocols := [1, 2, 3]\<rparr>) ''a''
       (REQUEST 9 (\<lambda>q. 5 \<le> q)) =
     (Inr (), (ResourceManager_init [RAW] [])\<lparr>waiting_protocols := [1, 2, 3],
         calls := [SendMessage ''a'' (RESPONSE 9 False None)]\<rparr>)
   \<and> snd (received_message
            (snd (received_message ((ResourceManager_init [RAW] [])\<lparr>waiting_protocols := [2]\<rparr>)
                    ''a'' (REQUEST 9 (\<lambda>q. 2 \<le> q))))
            ''b'' (REQUEST 8 (\<lambda>q. q = 2))) =
       (ResourceManager_init [RAW] [])\<lparr>protocols := [2],
         calls := [SetOthers 2 (Some 9), SendMessage ''a'' (RESPONSE 9 True (Some 2)), Start 2,
                   SendMessage ''b'' (RESPONSE 8 False None)]\<rparr>"
proof -
  let ?rm = "(ResourceManager_init [RAW] [])\<lparr>waiting_protocols := [1, 2, 3]\<rparr>"
  let ?rm1 = "(ResourceManager_init [RAW] [])\<lparr>waiting_protocols := [2]\<rparr>"
  note a = request_first_match [where rm = ?rm and xs = "[1]" and p = 2 and ys = "[3]"
      and cond = "\<lambda>q. 2 \<le> q" and src = "''a''" and ini = 9, THEN conjunct1]
  note b = request_first_match [where rm = ?rm and cond = "\<lambda>q. 5 \<le> q" and src = "''a''"
      and ini = 9, THEN conjunct2, THEN conjunct1]
  note c = request_first_match [where rm = ?rm1 and p = 2 and cond = "\<lambda>q. 2 \<le> q"
      and cond' = "\<lambda>q. q = 2" and src = "''a''" and ini = 9 and src' = "''b''" and ini' = 8,
      THEN conjunct2, THEN conjunct2]
  have 1: "received_message ?rm ''a'' (REQUEST 9 (\<lambda>q. 2 \<le> q)) =
     (Inr (), (ResourceManager_init [RAW] [])\<lparr>waiting_protocols := [1, 3], protocols := [2],
         calls := [SetOthers 2 (Some 9), SendMessage ''a'' (RESPONSE 9 True (Some 2)), Start 2]\<rparr>)"
    using a by (simp add: ResourceManager_init_def)
  have 2: "received_message ?rm ''a'' (REQUEST 9 (\<lambda>q. 5 \<le> q)) =
     (Inr (), (ResourceManager_init [RAW] [])\<lparr>waiting_protocols := [1, 2, 3],
         calls := [SendMessage ''a'' (RESPONSE 9 False None)]\<rparr>)"
    using b by (simp add: ResourceManager_init_def)
  have 3: "snd (received_message (snd (received_message ?rm1 ''a'' (REQUEST 9 (\<lambda>q. 2 \<le> q))))
            ''b'' (REQUEST 8 (\<lambda>q. q = 2))) =
       (ResourceManager_init [RAW] [])\<lparr>protocols := [2],
         calls := [SetOthers 2 (Some 9), SendMessage ''a'' (RESPONSE 9 True (Some 2)), Start 2,
                   SendMessage ''b'' (RESPONSE 8 False None)]\<rparr>"
    using c by (simp add: ResourceManager_init_def Let_def)
  from 1 2 3 show ?thesis by blast
qed





subsection \<open>Releasing a memory\<close>

text \<open>
  Claim C10. \<open>update\<close> is not atomic on error: it writes the memory's new state first
  and removes the protocol from the node's active protocols second. For a protocol that
  is not active, \<open>ValueError\<close> reaches the caller, the memory keeps the state that was
  written, and no rule is evaluated: the only call made is the memory update.
\<close>

theorem update_not_atomic:
  "memory < length (memory_manager rm) \<Longrightarrow> protocol \<notin> set (protocols rm) \<Longrightarrow>
     update rm protocol memory state =
       (Inl ValueError, rm\<lparr>memory_manager := (memory_manager rm)[memory := state],
                          calls := calls rm @ [MemoryUpdate memory state]\<rparr>)"
  by (simp add: update_def MemoryManager_update_def list_remove_def log_call_def)

theorem update_not_atomic_witness:
  "update (ResourceManager_init [OCCUPIED, OCCUPIED] [3]) 4 1 ENTANGLED =
     (Inl ValueError,
      (ResourceManager_init [OCCUPIED, OCCUPIED] [3])\<lparr>memory_manager := [OCCUPIED, ENTANGLED],
         calls := [MemoryUpdate 1 ENTANGLED]\<rparr>)"
  using update_not_atomic [of 1 "ResourceManager_init [OCCUPIED, OCCUPIED] [3]" 4 ENTANGLED]
  by (simp add: ResourceManager_init_def)

lemma update_scan_match:
  "(\<forall>x\<in>set rs1. is_valid x (memory_manager rm) m = []) \<Longrightarrow> is_valid r (memory_manager rm) m \<noteq> [] \<Longrightarrow>
   update_scan (rs1 @ r # rs2) m rm = to_occupied m (Rule_do r (is_valid r (memory_manager rm) m) rm)"
  by (induction rs1) (auto simp: Let_def)

lemma update_scan_none:
  "(\<forall>x\<in>set rs. is_valid x (memory_manager rm) m = []) \<Longrightarrow> update_scan rs m rm = rm"
  by (induction rs) (auto simp: Let_def)

text \<open>
  Claim C1, as the source has it. A call of \<open>update\<close> for a protocol that is among the
  node's active protocols (and a memory of the node) writes the memory's state and then
  evaluates the loaded rules in registration order on that memory. Only the first rule
  whose predicate returns a non-empty claim set has its action invoked, on that claim
  set, and the memory is marked \<open>OCCUPIED\<close>; no later rule is invoked. When no rule's
  predicate returns a non-empty claim set, the memory keeps the state passed to
  \<open>update\<close> and no action is invoked.
\<close>

theorem update_first_match_wins:
  "memory < length (memory_manager rm) \<and> protocol \<in> set (protocols rm) \<longrightarrow>
    (rule_manager rm = rs1 @ r # rs2
       \<and> (\<forall>x\<in>set rs1. is_valid x ((memory_manager rm)[memory := state]) memory = [])
       \<and> is_valid r ((memory_manager rm)[memory := state]) memory \<noteq> [] \<longrightarrow>
     update rm protocol memory state =
       (Inr True,
        rm\<lparr>memory_manager := (memory_manager rm)[memory := OCCUPIED],
           protocols := remove1 protocol (protocols rm),
           calls := calls rm @
             [MemoryUpdate memory state,
              RuleDo (rule_id r) (created rm)
                (is_valid r ((memory_manager rm)[memory := state]) memory),
              ToOccupied memory],
           created := Suc (created rm)\<rparr>))
    \<and> ((\<forall>x\<in>set (rule_manager rm).
           is_valid x ((memory_manager rm)[memory := state]) memory = []) \<longrightarrow>
     update rm protocol memory state =
       (Inr True,
        rm\<lparr>memory_manager := (memory_manager rm)[memory := state],
           protocols := remove1 protocol (protocols rm),
           calls := calls rm @ [MemoryUpdate memory state]\<rparr>))"
  by (simp add: update_def MemoryManager_update_def list_remove_def log_call_def
      update_scan_match update_scan_none to_occupied_def Rule_do_def)

theorem update_first_match_wins_witness:
  "update ((ResourceManager_init [OCCUPIED] [3])\<lparr>rule_manager :=
        [\<lparr>rule_id = 1, is_valid = (\<lambda>states i. if states ! i = ENTANGLED then [i] else [])\<rparr>,
         \<lparr>rule_id = 2, is_valid = (\<lambda>states i. [i])\<rparr>]\<rparr>) 3 0 ENTANGLED =
     (Inr True,
      (ResourceManager_init [OCCUPIED] [])\<lparr>rule_manager :=
        [\<lparr>rule_id = 1, is_valid = (\<lambda>states i. if states ! i = ENTANGLED then [i] else [])\<rparr>,
         \<lparr>rule_id = 2, is_valid = (\<lambda>states i. [i])\<rparr>],
        calls := [MemoryUpdate 0 ENTANGLED, RuleDo 1 0 [0], ToOccupied 0], created := 1\<rparr>)
   \<and> update ((ResourceManager_init [OCCUPIED] [3])\<lparr>rule_manager :=
        [\<lparr>rule_id = 1, is_valid = (\<lambda>states i. if states ! i = ENTANGLED then [i] else [])\<rparr>]\<rparr>)
        3 0 RAW =
     (Inr True,
      (ResourceManager_init [RAW] [])\<lparr>rule_manager :=
        [\<lparr>rule_id = 1, is_valid = (\<lambda>states i. if states ! i = ENTANGLED then [i] else [])\<rparr>],
        calls := [MemoryUpdate 0 RAW]\<rparr>)"
proof -
  let ?r1 = "\<lparr>rule_id = 1, is_valid = (\<lambda>states i. if states ! i = ENTANGLED then [i] else [])\<rparr>"
  let ?r2 = "\<lparr>rule_id = 2, is_valid = (\<lambda>states i. [i])\<rparr>"
  let ?rm = "(ResourceManager_init [OCCUPIED] [3])\<lparr>rule_manager := [?r1, ?r2]\<rparr>"
  let ?rm' = "(ResourceManager_init [OCCUPIED] [3])\<lparr>rule_manager := [?r1]\<rparr>"
  note a = update_first_match_wins [where rm = ?rm and memory = 0 and protocol = 3
      and state = ENTANGLED and ?rs1.0 = "[]" and r = ?r1 and ?rs2.0 = "[?r2]", THEN mp, THEN conjunct1]
  note b = update_first_match_wins [where rm = ?rm' and memory = 0 and protocol = 3
      and state = RAW and ?rs1.0 = "[]" and r = ?r1 and ?rs2.0 = "[]", THEN mp, THEN conjunct2]
  have 1: "update ?rm 3 0 ENTANGLED =
     (Inr True, (ResourceManager_init [OCCUPIED] [])\<lparr>rule_manager := [?r1, ?r2],
        calls := [MemoryUpdate 0 ENTANGLED, RuleDo 1 0 [0], ToOccupied 0], created := 1\<rparr>)"
    using a by (simp add: ResourceManager_init_def)
  have 2: "update ?rm' 3 0 RAW =
     (Inr True, (ResourceManager_init [RAW] [])\<lparr>rule_manager := [?r1], calls := [MemoryUpdate 0 RAW]\<rparr>)"
    using b by (simp add: ResourceManager_init_def)
  from 1 2 show ?thesis by blast
qed

text \<open>
  Claim C1 as stated speaks of every call. A protocol that a rule has produced but that
  has not been started is not among the active protocols; when it calls \<open>update\<close>, the
  memory is freed, a rule would match it, and yet no action is invoked and the memory
  is not marked \<open>OCCUPIED\<close>, because the call raises first.
\<close>

theorem update_unstarted_counterexample:
  "is_valid \<lparr>rule_id = 1, is_valid = (\<lambda>states i. [i])\<rparr> [RAW] 0 \<noteq> []
   \<and> snd (load (ResourceManager_init [RAW] []) \<lparr>rule_id = 1, is_valid = (\<lambda>states i. [i])\<rparr>) =
       \<lparr>memory_manager = [OCCUPIED], rule_manager = [\<lparr>rule_id = 1, is_valid = (\<lambda>states i. [i])\<rparr>],
        pending_protocols = [], waiting_protocols = [], protocols = [],
        calls = [ToOccupied 0, RuleDo 1 0 [0]], created = 1\<rparr>
   \<and> update \<lparr>memory_manager = [OCCUPIED], rule_manager = [\<lparr>rule_id = 1, is_valid = (\<lambda>states i. [i])\<rparr>],
        pending_protocols = [], waiting_protocols = [], protocols = [],
        calls = [ToOccupied 0, RuleDo 1 0 [0]], created = 1\<rparr> 0 0 RAW =
      (Inl ValueError,
       \<lparr>memory_manager = [RAW], rule_manager = [\<lparr>rule_id = 1, is_valid = (\<lambda>states i. [i])\<rparr>],
        pending_protocols = [], waiting_protocols = [], protocols = [],
        calls = [ToOccupied 0, RuleDo 1 0 [0], MemoryUpdate 0 RAW], created = 1\<rparr>)"
  by (simp add: load_def load_visit_def RuleManager_load_def ResourceManager_init_def
      to_occupied_def Rule_do_def log_call_def update_def MemoryManager_update_def
      list_remove_def)

subsection \<open>Loading a rule\<close>

lemma rule_invocations_append:
  "rule_invocations (xs @ ys) = rule_invocations xs @ rule_invocations ys"
  by (induction xs rule: rule_invocations.induct) auto

lemma load_visit_memory:
  "memory_manager (load_visit r i rm) =
     (if is_valid r (memory_manager rm) i \<noteq> [] then (memory_manager rm)[i := OCCUPIED]
      else memory_manager rm)"
  by (simp add: load_visit_def Let_def Rule_do_def to_occupied_def log_call_def)

lemma load_visit_invocations:
  "rule_invocations (calls (load_visit r i rm)) =
     rule_invocations (calls rm) @
       (if is_valid r (memory_manager rm) i \<noteq> []
        then [(rule_id r, is_valid r (memory_manager rm) i)] else [])"
  by (simp add: load_visit_def Let_def Rule_do_def to_occupied_def log_call_def
      rule_invocations_append)

lemma load_visit_frame:
  "pending_protocols (load_visit r i rm) = pending_protocols rm"
  "waiting_protocols (load_visit r i rm) = waiting_protocols rm"
  "protocols (load_visit r i rm) = protocols rm"
  "rule_manager (load_visit r i rm) = rule_manager rm"
  by (simp_all add: load_visit_def Let_def Rule_do_def to_occupied_def log_call_def)

lemma load_scan_frame:
  "pending_protocols (load_scan r ms rm) = pending_protocols rm
   \<and> waiting_protocols (load_scan r ms rm) = waiting_protocols rm
   \<and> protocols (load_scan r ms rm) = protocols rm
   \<and> rule_manager (load_scan r ms rm) = rule_manager rm
   \<and> length (memory_manager (load_scan r ms rm)) = length (memory_manager rm)"
proof (induction ms arbitrary: rm)
  case Nil
  show ?case by simp
next
  case (Cons i ms)
  show ?case
    by (simp add: Cons.IH load_visit_frame load_visit_memory)
qed

lemma load_scan_untouched:
  "i \<notin> set ms \<Longrightarrow> memory_manager (load_scan r ms rm) ! i = memory_manager rm ! i"
proof (induction ms arbitrary: rm)
  case Nil
  show ?case by simp
next
  case (Cons j ms)
  then have "i \<noteq> j" "i \<notin> set ms" by auto
  then show ?case
    by (simp add: Cons.IH load_visit_memory)
qed

lemma load_scan_upt:
  assumes "n = length (memory_manager rm)" "k \<le> n"
  shows "(\<forall>i. k \<le> i \<and> i < n \<longrightarrow>
            memory_manager (load_scan r [k..<n] rm) ! i =
              (if is_valid r (seen_at (memory_manager rm) (memory_manager (load_scan r [k..<n] rm)) i) i \<noteq> []
               then OCCUPIED else memory_manager rm ! i))
         \<and> rule_invocations (calls (load_scan r [k..<n] rm)) =
             rule_invocations (calls rm) @
               map (\<lambda>i. (rule_id r,
                      is_valid r (seen_at (memory_manager rm) (memory_manager (load_scan r [k..<n] rm)) i) i))
                 (filter (\<lambda>i. is_valid r (seen_at (memory_manager rm)
                                  (memory_manager (load_scan r [k..<n] rm)) i) i \<noteq> [])
                    [k..<n])"
  using assms
proof (induction "n - k" arbitrary: k rm)
  case 0
  then show ?case by auto
next
  case (Suc d)
  then have kn: "k < n" by simp
  let ?mm = "memory_manager rm"
  let ?rm1 = "load_visit r k rm"
  let ?mm1 = "memory_manager ?rm1"
  let ?fin = "load_scan r [Suc k..<n] ?rm1"
  let ?mm' = "memory_manager ?fin"
  have unfold: "load_scan r [k..<n] rm = ?fin"
    using kn by (simp add: upt_conv_Cons)
  have len1: "n = length ?mm1" using Suc.prems by (simp add: load_visit_memory)
  have len': "length ?mm' = n" using len1 by (simp add: load_scan_frame)
  have IH: "(\<forall>i. Suc k \<le> i \<and> i < n \<longrightarrow>
            ?mm' ! i = (if is_valid r (seen_at ?mm1 ?mm' i) i \<noteq> [] then OCCUPIED else ?mm1 ! i))
         \<and> rule_invocations (calls ?fin) =
             rule_invocations (calls ?rm1) @
               map (\<lambda>i. (rule_id r, is_valid r (seen_at ?mm1 ?mm' i) i))
                 (filter (\<lambda>i. is_valid r (seen_at ?mm1 ?mm' i) i \<noteq> []) [Suc k..<n])"
    using Suc.hyps(1) [of "Suc k" ?rm1] Suc.hyps(2) len1 kn by simp
  have low: "\<And>i. i \<le> k \<Longrightarrow> ?mm' ! i = ?mm1 ! i"
    by (rule load_scan_untouched) simp
  have seen_hi: "\<And>i. k < i \<Longrightarrow> seen_at ?mm1 ?mm' i = seen_at ?mm ?mm' i"
    by (simp add: seen_at_def load_visit_memory drop_update_cancel)
  have "take k ?mm' = take k ?mm1"
    using len' len1 kn low by (intro nth_take_lemma) auto
  also have "\<dots> = take k ?mm" by (simp add: load_visit_memory)
  finally have seen_k: "seen_at ?mm ?mm' k = ?mm" by (simp add: seen_at_def)
  have at_k: "?mm' ! k = (if is_valid r ?mm k \<noteq> [] then OCCUPIED else ?mm ! k)"
    using low [of k] kn Suc.prems(1) by (simp add: load_visit_memory)
  have states: "\<forall>i. k \<le> i \<and> i < n \<longrightarrow>
      ?mm' ! i = (if is_valid r (seen_at ?mm ?mm' i) i \<noteq> [] then OCCUPIED else ?mm ! i)"
  proof (intro allI impI)
    fix i assume i: "k \<le> i \<and> i < n"
    show "?mm' ! i = (if is_valid r (seen_at ?mm ?mm' i) i \<noteq> [] then OCCUPIED else ?mm ! i)"
    proof (cases "i = k")
      case True
      then show ?thesis using at_k seen_k by simp
    next
      case False
      with i have ki: "k < i" by simp
      then have "?mm1 ! i = ?mm ! i" by (simp add: load_visit_memory)
      with IH i ki seen_hi [OF ki] show ?thesis by simp
    qed
  qed
  have filt: "filter (\<lambda>i. is_valid r (seen_at ?mm1 ?mm' i) i \<noteq> []) [Suc k..<n]
      = filter (\<lambda>i. is_valid r (seen_at ?mm ?mm' i) i \<noteq> []) [Suc k..<n]"
    by (rule filter_cong) (auto simp: seen_hi)
  have mp: "map (\<lambda>i. (rule_id r, is_valid r (seen_at ?mm1 ?mm' i) i))
                 (filter (\<lambda>i. is_valid r (seen_at ?mm ?mm' i) i \<noteq> []) [Suc k..<n])
      = map (\<lambda>i. (rule_id r, is_valid r (seen_at ?mm ?mm' i) i))
                 (filter (\<lambda>i. is_valid r (seen_at ?mm ?mm' i) i \<noteq> []) [Suc k..<n])"
    by (rule map_cong) (auto simp: seen_hi)
  have inv: "rule_invocations (calls ?fin) =
             rule_invocations (calls rm) @
               map (\<lambda>i. (rule_id r, is_valid r (seen_at ?mm ?mm' i) i))
                 (filter (\<lambda>i. is_valid r (seen_at ?mm ?mm' i) i \<noteq> []) [k..<n])"
    using IH kn seen_k by (simp add: filt mp load_visit_invocations upt_conv_Cons)
  from states inv show ?case unfolding unfold by blast
qed

lemma filter_eq_le_one: "distinct xs \<Longrightarrow> length (filter (\<lambda>i. i = m \<and> P i) xs) \<le> 1"
proof -
  assume d: "distinct xs"
  have "card ({i. i = m \<and> P i} \<inter> set xs) \<le> card {m}"
    by (rule card_mono) auto
  with d show ?thesis by (simp add: distinct_length_filter)
qed

text \<open>
  Claim C5, as the source has it. \<open>load\<close> registers the rule and evaluates its predicate
  on every \<open>MemoryInfo\<close> in slot order, each time on the states as the scan has left
  them so far. Whenever the predicate returns a non-empty claim set, the evaluated
  memory is marked \<open>OCCUPIED\<close> and the rule's action is invoked once on that claim
  set; a memory whose evaluation returns nothing keeps its state, also when it is a
  member of another claim set. The waiting, pending and active protocols do not change.
  When the predicate claims nothing but the evaluated memory, no memory is in the claim
  set of more than one invocation of the scan.
\<close>

theorem load_marks_visited_slot:
  "(let mm = memory_manager rm; rm' = snd (load rm r); mm' = memory_manager rm';
        claim = (\<lambda>i. is_valid r (seen_at mm mm' i) i)
    in fst (load rm r) = True
       \<and> rule_manager rm' = rule_manager rm @ [r]
       \<and> pending_protocols rm' = pending_protocols rm
       \<and> waiting_protocols rm' = waiting_protocols rm
       \<and> protocols rm' = protocols rm
       \<and> length mm' = length mm
       \<and> (\<forall>i<length mm. mm' ! i = (if claim i \<noteq> [] then OCCUPIED else mm ! i))
       \<and> rule_invocations (calls rm') =
           rule_invocations (calls rm) @
             map (\<lambda>i. (rule_id r, claim i)) (filter (\<lambda>i. claim i \<noteq> []) [0..<length mm])
       \<and> ((\<forall>states i. set (is_valid r states i) \<subseteq> {i}) \<longrightarrow>
           (\<forall>m. length (filter (\<lambda>inv. m \<in> set (snd inv))
                   (map (\<lambda>i. (rule_id r, claim i))
                      (filter (\<lambda>i. claim i \<noteq> []) [0..<length mm]))) \<le> 1)))"
proof -
  let ?rm1 = "RuleManager_load r rm"
  let ?mm = "memory_manager rm"
  let ?n = "length ?mm"
  let ?fin = "load_scan r [0..<?n] ?rm1"
  let ?mm' = "memory_manager ?fin"
  let ?claim = "\<lambda>i. is_valid r (seen_at ?mm ?mm' i) i"
  have ld: "load rm r = (True, ?fin)"
    by (simp add: load_def RuleManager_load_def Let_def)
  have mm1: "memory_manager ?rm1 = ?mm" "calls ?rm1 = calls rm"
    "pending_protocols ?rm1 = pending_protocols rm"
    "waiting_protocols ?rm1 = waiting_protocols rm" "protocols ?rm1 = protocols rm"
    "rule_manager ?rm1 = rule_manager rm @ [r]"
    by (simp_all add: RuleManager_load_def)
  have fr: "pending_protocols ?fin = pending_protocols rm"
    "waiting_protocols ?fin = waiting_protocols rm" "protocols ?fin = protocols rm"
    "rule_manager ?fin = rule_manager rm @ [r]" "length ?mm' = ?n"
    using load_scan_frame [of r "[0..<?n]" ?rm1] by (simp_all add: mm1)
  have up: "(\<forall>i. 0 \<le> i \<and> i < ?n \<longrightarrow> ?mm' ! i = (if ?claim i \<noteq> [] then OCCUPIED else ?mm ! i))
      \<and> rule_invocations (calls ?fin) =
           rule_invocations (calls rm) @
             map (\<lambda>i. (rule_id r, ?claim i)) (filter (\<lambda>i. ?claim i \<noteq> []) [0..<?n])"
    using load_scan_upt [of ?n ?rm1 0 r] by (simp add: mm1)
  have once: "length (filter (\<lambda>inv. m \<in> set (snd inv))
                   (map (\<lambda>i. (rule_id r, ?claim i)) (filter (\<lambda>i. ?claim i \<noteq> []) [0..<?n]))) \<le> 1"
    if own: "\<forall>states i. set (is_valid r states i) \<subseteq> {i}" for m
  proof -
    have eq: "(\<lambda>i. ?claim i \<noteq> [] \<and> m \<in> set (?claim i)) = (\<lambda>i. i = m \<and> m \<in> set (?claim i))"
      using own by (intro ext) auto
    have "length (filter (\<lambda>inv. m \<in> set (snd inv))
                   (map (\<lambda>i. (rule_id r, ?claim i)) (filter (\<lambda>i. ?claim i \<noteq> []) [0..<?n])))
        = length (filter (\<lambda>i. ?claim i \<noteq> [] \<and> m \<in> set (?claim i)) [0..<?n])"
      by (simp add: filter_map o_def)
    also have "\<dots> = length (filter (\<lambda>i. i = m \<and> m \<in> set (?claim i)) [0..<?n])"
      by (simp only: eq)
    also have "\<dots> \<le> 1" by (rule filter_eq_le_one) simp
    finally show ?thesis .
  qed
  have s1: "\<forall>i<?n. ?mm' ! i = (if ?claim i \<noteq> [] then OCCUPIED else ?mm ! i)"
    using up by simp
  have s2: "rule_invocations (calls ?fin) =
           rule_invocations (calls rm) @
             map (\<lambda>i. (rule_id r, ?claim i)) (filter (\<lambda>i. ?claim i \<noteq> []) [0..<?n])"
    using up by (rule conjunct2)
  have s3: "(\<forall>states i. set (is_valid r states i) \<subseteq> {i}) \<longrightarrow>
           (\<forall>m. length (filter (\<lambda>inv. m \<in> set (snd inv))
                   (map (\<lambda>i. (rule_id r, ?claim i))
                      (filter (\<lambda>i. ?claim i \<noteq> []) [0..<?n]))) \<le> 1)"
    using once by (intro impI allI)
  show ?thesis
    unfolding Let_def ld fst_conv snd_conv
    by (intro conjI refl fr s1 s2 s3)
qed

theorem load_marks_visited_slot_witness:
  "(\<forall>states i. set (is_valid \<lparr>rule_id = 7, is_valid = (\<lambda>states i. if states ! i = RAW then [i] else [])\<rparr> states i) \<subseteq> {i})
   \<and> memory_manager (snd (load (ResourceManager_init [RAW, ENTANGLED, RAW] [])
        \<lparr>rule_id = 7, is_valid = (\<lambda>states i. if states ! i = RAW then [i] else [])\<rparr>))
       = [OCCUPIED, ENTANGLED, OCCUPIED]
   \<and> rule_invocations (calls (snd (load (ResourceManager_init [RAW, ENTANGLED, RAW] [])
        \<lparr>rule_id = 7, is_valid = (\<lambda>states i. if states ! i = RAW then [i] else [])\<rparr>)))
       = [(7, [0]), (7, [2])]
   \<and> (\<forall>m. length (filter (\<lambda>inv. m \<in> set (snd inv)) [(7::nat, [0::nat]), (7, [2])]) \<le> 1)"
proof -
  let ?r = "\<lparr>rule_id = 7, is_valid = (\<lambda>states i. if states ! i = RAW then [i] else [])\<rparr>"
  let ?rm = "ResourceManager_init [RAW, ENTANGLED, RAW] []"
  have ev: "snd (load ?rm ?r) =
      \<lparr>memory_manager = [OCCUPIED, ENTANGLED, OCCUPIED], rule_manager = [?r],
       pending_protocols = [], waiting_protocols = [], protocols = [],
       calls = [ToOccupied 0, RuleDo 7 0 [0], ToOccupied 2, RuleDo 7 1 [2]], created = 2\<rparr>"
    by (simp add: load_def load_visit_def RuleManager_load_def ResourceManager_init_def
        to_occupied_def Rule_do_def log_call_def upt_rec)
  have own: "\<forall>states i. set (is_valid ?r states i) \<subseteq> {i}" by auto
  have f: "filter (\<lambda>i. is_valid ?r (seen_at [RAW, ENTANGLED, RAW] [OCCUPIED, ENTANGLED, OCCUPIED] i) i \<noteq> [])
             [0..<3] = [0, 2]"
    by (simp add: seen_at_def upt_rec)
  note t = load_marks_visited_slot [of ?rm ?r, unfolded Let_def ev]
  have "\<forall>m. length (filter (\<lambda>inv. m \<in> set (snd inv)) [(7::nat, [0::nat]), (7, [2])]) \<le> 1"
    using t own f by (simp add: ResourceManager_init_def seen_at_def)
  with own ev show ?thesis by simp
qed

text \<open>
  Claim C5 as stated has every memory of a claim set marked \<open>OCCUPIED\<close> and no memory
  claimed twice during the scan. A rule that claims a free memory together with its
  right neighbour, loaded on three free memories, is invoked on the claim sets 0, 1 and
  1, 2: memory 1 is in both, and memory 2 is claimed yet stays \<open>RAW\<close>.
\<close>

theorem load_claims_twice_counterexample:
  "snd (load (ResourceManager_init [RAW, RAW, RAW] [])
        \<lparr>rule_id = 7,
         is_valid = (\<lambda>states i. if states ! i = RAW \<and> Suc i < length states then [i, Suc i] else [])\<rparr>) =
     \<lparr>memory_manager = [OCCUPIED, OCCUPIED, RAW],
      rule_manager = [\<lparr>rule_id = 7,
         is_valid = (\<lambda>states i. if states ! i = RAW \<and> Suc i < length states then [i, Suc i] else [])\<rparr>],
      pending_protocols = [], waiting_protocols = [], protocols = [],
      calls = [ToOccupied 0, RuleDo 7 0 [0, 1], ToOccupied 1, RuleDo 7 1 [1, 2]],
      created = 2\<rparr>"
  by (simp add: load_def load_visit_def RuleManager_load_def ResourceManager_init_def
      to_occupied_def Rule_do_def log_call_def upt_rec)

subsection \<open>Admission of protocols\<close>

lemma count_list_remove1:
  "count_list (remove1 p xs) q =
     (if p = q \<and> p \<in> set xs then count_list xs q - 1 else count_list xs q)"
  by (induction xs) auto

lemma count_list_snoc: "count_list (xs @ [p]) q = count_list xs q + (if p = q then 1 else 0)"
  by (induction xs) auto

lemma count_list_pos: "p \<in> set xs \<Longrightarrow> 0 < count_list xs p"
  by (induction xs) auto

lemma update_scan_frame:
  "pending_protocols (update_scan rs m rm) = pending_protocols rm
   \<and> waiting_protocols (update_scan rs m rm) = waiting_protocols rm
   \<and> protocols (update_scan rs m rm) = protocols rm
   \<and> rule_manager (update_scan rs m rm) = rule_manager rm"
  by (induction rs) (simp_all add: Let_def to_occupied_def Rule_do_def log_call_def)

lemma occurrences_load: "occurrences (snd (load rm r)) q = occurrences rm q"
  by (simp add: load_def Let_def occurrences_def load_scan_frame RuleManager_load_def)

lemma occurrences_update:
  "occurrences (snd (update rm p m st)) q =
     (if p = q \<and> p \<in> set (protocols rm) \<and> m < length (memory_manager rm)
      then occurrences rm q - 1 else occurrences rm q)"
  by (auto simp: update_def MemoryManager_update_def list_remove_def log_call_def Let_def
      occurrences_def update_scan_frame count_list_remove1 dest: count_list_pos)

lemma occurrences_send_request:
  "occurrences (snd (send_request rm p dst f)) q = occurrences rm q + (if p = q then 1 else 0)"
  by (simp add: send_request_def ResourceManagerMessage_init_def send_message_def log_call_def
      occurrences_def count_list_snoc Let_def split: option.splits)

lemma first_accepted_mem: "first_accepted f xs = Some p \<Longrightarrow> p \<in> set xs"
  by (induction xs) (auto split: if_splits)

lemma occurrences_release_memories:
  "occurrences (snd (release_memories p ms rm)) q \<le> occurrences rm q
   \<and> (q \<noteq> p \<longrightarrow> occurrences (snd (release_memories p ms rm)) q = occurrences rm q)
   \<and> pending_protocols (snd (release_memories p ms rm)) = pending_protocols rm"
proof (induction ms arbitrary: rm)
  case Nil
  show ?case by simp
next
  case (Cons m ms)
  obtain r rm1 where u: "update rm p m RAW = (r, rm1)" by (cases "update rm p m RAW")
  then have rm1: "rm1 = snd (update rm p m RAW)" by simp
  have occ: "occurrences rm1 q \<le> occurrences rm q"
    "q \<noteq> p \<Longrightarrow> occurrences rm1 q = occurrences rm q"
    unfolding rm1 by (simp_all add: occurrences_update)
  have pend: "pending_protocols rm1 = pending_protocols rm"
    unfolding rm1
    by (simp add: update_def MemoryManager_update_def list_remove_def log_call_def Let_def
        update_scan_frame split: option.splits)
  show ?case
  proof (cases r)
    case (Inl e)
    with u occ pend show ?thesis by simp
  next
    case (Inr ok)
    with u have "release_memories p (m # ms) rm = release_memories p ms rm1" by simp
    with Cons.IH [of rm1] occ pend show ?thesis by auto
  qed
qed

lemma occurrences_Protocol_release:
  "occurrences (snd (Protocol_release p rm)) q \<le> occurrences rm q
   \<and> (q \<noteq> p \<longrightarrow> occurrences (snd (Protocol_release p rm)) q = occurrences rm q)
   \<and> pending_protocols (snd (Protocol_release p rm)) = pending_protocols rm"
proof -
  have "occurrences (log_call (Release p) rm) q = occurrences rm q"
    "pending_protocols (log_call (Release p) rm) = pending_protocols rm"
    by (simp_all add: occurrences_def log_call_def)
  with occurrences_release_memories
    [of p "protocol_memories (calls rm) p" "log_call (Release p) rm" q]
  show ?thesis by (simp add: Protocol_release_def)
qed

lemma occurrences_rejected:
  "occurrences (snd (received_message rm src (RESPONSE p False paired))) q \<le> occurrences rm q
   \<and> (q \<noteq> p \<longrightarrow>
        occurrences (snd (received_message rm src (RESPONSE p False paired))) q = occurrences rm q)"
proof -
  obtain r rm1 where u: "Protocol_release p rm = (r, rm1)" by (cases "Protocol_release p rm")
  then have rm1: "rm1 = snd (Protocol_release p rm)" by simp
  have occ: "occurrences rm1 q \<le> occurrences rm q"
    "q \<noteq> p \<longrightarrow> occurrences rm1 q = occurrences rm q"
    unfolding rm1 using occurrences_Protocol_release [of p rm q] by simp_all
  have rem: "occurrences (rm1\<lparr>pending_protocols := remove1 p (pending_protocols rm1)\<rparr>) q
      \<le> occurrences rm1 q
    \<and> (q \<noteq> p \<longrightarrow> occurrences (rm1\<lparr>pending_protocols := remove1 p (pending_protocols rm1)\<rparr>) q
          = occurrences rm1 q)"
    by (simp add: occurrences_def count_list_remove1)
  show ?thesis
  proof (cases r)
    case (Inl e)
    with u occ show ?thesis by (simp add: received_message_def)
  next
    case (Inr ok)
    with u occ rem show ?thesis
      by (auto simp: received_message_def list_remove_def)
  qed
qed

lemma occurrences_received_message:
  "(case msg of REQUEST ini f \<Rightarrow> True | RESPONSE p approved paired \<Rightarrow> approved) \<Longrightarrow>
   occurrences (snd (received_message rm src msg)) q = occurrences rm q"
proof (cases msg)
  case (REQUEST ini f)
  show ?thesis
  proof (cases "first_accepted f (waiting_protocols rm)")
    case None
    with REQUEST show ?thesis
      by (simp add: received_message_def send_message_def log_call_def occurrences_def)
  next
    case (Some p)
    then have "p \<in> set (waiting_protocols rm)" by (rule first_accepted_mem)
    then have "0 < count_list (waiting_protocols rm) p" by (rule count_list_pos)
    with REQUEST Some \<open>p \<in> set (waiting_protocols rm)\<close> show ?thesis
      by (auto simp: received_message_def send_message_def log_call_def occurrences_def
          list_remove_def count_list_remove1 count_list_snoc)
  qed
next
  case (RESPONSE p approved paired)
  assume "case msg of REQUEST ini f \<Rightarrow> True | RESPONSE p approved paired \<Rightarrow> approved"
  with RESPONSE have ap: approved by simp
  show ?thesis
  proof (cases "p \<in> set (pending_protocols rm)")
    case True
    then have "0 < count_list (pending_protocols rm) p" by (rule count_list_pos)
    with RESPONSE True ap show ?thesis
      by (auto simp: received_message_def log_call_def occurrences_def Let_def
          list_remove_def count_list_remove1 count_list_snoc)
  next
    case False
    with RESPONSE ap show ?thesis
      by (simp add: received_message_def log_call_def occurrences_def list_remove_def Let_def)
  qed
qed

lemma occurrences_received_message_le:
  "occurrences (snd (received_message rm src msg)) q \<le> occurrences rm q"
proof (cases msg)
  case (REQUEST ini f)
  then show ?thesis by (simp add: occurrences_received_message)
next
  case (RESPONSE p approved paired)
  then show ?thesis
    using occurrences_rejected [of rm src p paired q]
    by (cases approved) (simp_all add: occurrences_received_message)
qed

lemma occurrences_received_message_ge:
  "\<not> releases (ReceivedMessage src msg) q \<Longrightarrow>
   occurrences rm q \<le> occurrences (snd (received_message rm src msg)) q"
proof (cases msg)
  case (REQUEST ini f)
  then show ?thesis by (simp add: occurrences_received_message)
next
  case (RESPONSE p approved paired)
  assume "\<not> releases (ReceivedMessage src msg) q"
  with RESPONSE have "approved \<or> q \<noteq> p" by auto
  with RESPONSE show ?thesis
    using occurrences_rejected [of rm src p paired q]
    by (cases approved) (simp_all add: occurrences_received_message)
qed

lemma occurrences_step_enter: "enters c q \<Longrightarrow> occurrences (step rm c) q = occurrences rm q + 1"
  by (cases c) (simp_all add: occurrences_send_request)

lemma occurrences_step_le: "\<not> enters c q \<Longrightarrow> occurrences (step rm c) q \<le> occurrences rm q"
  by (cases c)
    (simp_all add: occurrences_load occurrences_update occurrences_send_request
      occurrences_received_message_le)

lemma occurrences_step_ge: "\<not> releases c q \<Longrightarrow> occurrences rm q \<le> occurrences (step rm c) q"
  by (cases c)
    (auto simp: occurrences_load occurrences_update occurrences_send_request
      occurrences_received_message_ge)

lemma collections_le_occurrences: "collections_holding rm p \<le> occurrences rm p"
proof -
  have "\<And>xs. (if p \<in> set xs then 1 else 0) \<le> count_list xs p"
    using count_list_pos [of p] by (auto simp: Suc_le_eq)
  from this [of "pending_protocols rm"] this [of "waiting_protocols rm"] this [of "protocols rm"]
  show ?thesis unfolding collections_holding_def occurrences_def by linarith
qed

lemma collections_eq_occurrences:
  "occurrences rm p \<le> 1 \<Longrightarrow> collections_holding rm p = occurrences rm p"
proof -
  assume h: "occurrences rm p \<le> 1"
  have c: "\<And>xs. count_list xs p \<le> 1 \<Longrightarrow> (if p \<in> set xs then 1 else 0) = count_list xs p"
    using count_list_pos [of p] by (fastforce simp: count_list_0_iff)
  from h have "count_list (pending_protocols rm) p \<le> 1" "count_list (waiting_protocols rm) p \<le> 1"
    "count_list (protocols rm) p \<le> 1"
    by (simp_all add: occurrences_def)
  then show ?thesis
    unfolding collections_holding_def occurrences_def by (simp add: c)
qed

lemma step_keeps_at_most_one:
  assumes "\<forall>p. occurrences rm p \<le> 1"
    and "case c of SendRequest p dst f \<Rightarrow> occurrences rm p = 0 | _ \<Rightarrow> True"
  shows "\<forall>p. occurrences (step rm c) p \<le> 1"
proof
  fix q
  show "occurrences (step rm c) q \<le> 1"
  proof (cases "enters c q")
    case True
    then obtain dst f where "c = SendRequest q dst f" by (cases c) auto
    with assms(2) have "occurrences rm q = 0" by simp
    with True show ?thesis by (simp add: occurrences_step_enter)
  next
    case False
    from occurrences_step_le [OF this, of rm] assms(1) show ?thesis
      by (meson le_trans)
  qed
qed

lemma run_snoc: "run rm (ops @ [c]) = step (run rm ops) c"
  by (simp add: run_def)

lemma run_Cons: "run rm (c # ops) = run (step rm c) ops"
  by (simp add: run_def)

lemma requests_fresh_prefix:
  "requests_fresh rm ops \<Longrightarrow> k < length ops \<Longrightarrow>
   (case ops ! k of SendRequest p dst f \<Rightarrow> occurrences (run rm (take k ops)) p = 0 | _ \<Rightarrow> True)"
proof (induction ops arbitrary: rm k)
  case Nil
  then show ?case by simp
next
  case (Cons c ops)
  show ?case
  proof (cases k)
    case 0
    with Cons.prems show ?thesis by (simp add: run_def split: op.splits)
  next
    case (Suc j)
    then have r: "run rm (take k (c # ops)) = run (step rm c) (take j ops)"
      by (simp add: run_Cons)
    from Suc have n: "(c # ops) ! k = ops ! j" by simp
    from Suc Cons.prems have "requests_fresh (step rm c) ops" "j < length ops" by simp_all
    from Cons.IH [OF this] show ?thesis unfolding r n .
  qed
qed

lemma run_keeps_at_most_one:
  "\<forall>p. occurrences rm p \<le> 1 \<Longrightarrow> requests_fresh rm ops \<Longrightarrow>
   \<forall>p. occurrences (run rm (take k ops)) p \<le> 1"
proof (induction k)
  case 0
  then show ?case by (simp add: run_def)
next
  case (Suc k)
  show ?case
  proof (cases "k < length ops")
    case True
    then have "take (Suc k) ops = take k ops @ [ops ! k]" by (simp add: take_Suc_conv_app_nth)
    then have "run rm (take (Suc k) ops) = step (run rm (take k ops)) (ops ! k)"
      by (simp add: run_snoc)
    with step_keeps_at_most_one [OF Suc.IH [OF Suc.prems] requests_fresh_prefix [OF Suc.prems(2) True]]
    show ?thesis by simp
  next
    case False
    then have "take (Suc k) ops = take k ops" by simp
    with Suc.IH [OF Suc.prems] show ?thesis by simp
  qed
qed

text \<open>
  Claim C4, as the source has it. Start from collections that hold no protocol twice,
  and let \<open>load\<close>, \<open>update\<close>, \<open>send_request\<close> and \<open>received_message\<close> be called in any
  order, \<open>send_request\<close> only for a protocol that is in none of the collections at that
  moment. Then at every instant each protocol is in at most one of \<open>pending_protocols\<close>,
  \<open>waiting_protocols\<close> and the node's active protocols, and at most once; a protocol
  that is in one of them is in exactly one after the next call, unless that call
  releases it (an \<open>update\<close> by the protocol, or a rejecting \<open>RESPONSE\<close> for it); and the
  number of collections holding a protocol changes only when \<open>send_request\<close> enters it
  or such a call releases it.
\<close>

theorem one_collection_per_protocol:
  assumes "\<forall>p. occurrences rm p \<le> 1" and "requests_fresh rm ops"
  shows "\<forall>k p. collections_holding (run rm (take k ops)) p \<le> 1
           \<and> occurrences (run rm (take k ops)) p \<le> 1
           \<and> (k < length ops \<longrightarrow>
                run rm (take (Suc k) ops) = step (run rm (take k ops)) (ops ! k)
                \<and> (collections_holding (run rm (take k ops)) p = 1 \<and> \<not> releases (ops ! k) p
                     \<longrightarrow> collections_holding (run rm (take (Suc k) ops)) p = 1)
                \<and> (collections_holding (run rm (take (Suc k) ops)) p
                      \<noteq> collections_holding (run rm (take k ops)) p
                     \<longrightarrow> enters (ops ! k) p \<or> releases (ops ! k) p))"
proof (intro allI)
  fix k p
  let ?s = "run rm (take k ops)"
  let ?s' = "run rm (take (Suc k) ops)"
  have occ: "occurrences ?s p \<le> 1" and occ': "occurrences ?s' p \<le> 1"
    using run_keeps_at_most_one [OF assms] by blast+
  have col: "collections_holding ?s p = occurrences ?s p"
    and col': "collections_holding ?s' p = occurrences ?s' p"
    using occ occ' by (simp_all add: collections_eq_occurrences)
  have next_step: "?s' = step ?s (ops ! k)" if "k < length ops"
    using that by (simp add: take_Suc_conv_app_nth run_snoc)
  have keep: "collections_holding ?s' p = 1"
    if k: "k < length ops" and one: "collections_holding ?s p = 1" and nr: "\<not> releases (ops ! k) p"
  proof -
    from occurrences_step_ge [OF nr, of ?s] one col next_step [OF k]
    have "1 \<le> occurrences ?s' p" by simp
    with occ' col' show ?thesis by simp
  qed
  have change: "enters (ops ! k) p \<or> releases (ops ! k) p"
    if k: "k < length ops" and ne: "collections_holding ?s' p \<noteq> collections_holding ?s p"
  proof (rule ccontr)
    assume "\<not> (enters (ops ! k) p \<or> releases (ops ! k) p)"
    then have "\<not> enters (ops ! k) p" "\<not> releases (ops ! k) p" by simp_all
    from occurrences_step_le [OF this(1), of ?s] occurrences_step_ge [OF this(2), of ?s]
    have "occurrences ?s' p = occurrences ?s p" using next_step [OF k] by simp
    with ne col col' show False by simp
  qed
  show "collections_holding ?s p \<le> 1 \<and> occurrences ?s p \<le> 1
           \<and> (k < length ops \<longrightarrow>
                ?s' = step ?s (ops ! k)
                \<and> (collections_holding ?s p = 1 \<and> \<not> releases (ops ! k) p
                     \<longrightarrow> collections_holding ?s' p = 1)
                \<and> (collections_holding ?s' p \<noteq> collections_holding ?s p
                     \<longrightarrow> enters (ops ! k) p \<or> releases (ops ! k) p))"
    using occ col next_step keep change by simp
qed

theorem one_collection_per_protocol_witness:
  "(\<forall>p. occurrences (ResourceManager_init [OCCUPIED] []) p \<le> 1)
   \<and> requests_fresh (ResourceManager_init [OCCUPIED] [])
        [SendRequest 1 None (\<lambda>q. True), SendRequest 2 (Some ''b'') (\<lambda>q. True),
         ReceivedMessage ''a'' (REQUEST 9 (\<lambda>q. True)),
         ReceivedMessage ''b'' (RESPONSE 2 False None),
         Update 1 0 RAW]
   \<and> collections_holding (run (ResourceManager_init [OCCUPIED] [])
        (take 3 [SendRequest 1 None (\<lambda>q. True), SendRequest 2 (Some ''b'') (\<lambda>q. True),
         ReceivedMessage ''a'' (REQUEST 9 (\<lambda>q. True)),
         ReceivedMessage ''b'' (RESPONSE 2 False None),
         Update 1 0 RAW])) 1 \<le> 1"
proof -
  let ?rm = "ResourceManager_init [OCCUPIED] []"
  let ?ops = "[SendRequest 1 None (\<lambda>q. True), SendRequest 2 (Some ''b'') (\<lambda>q. True),
         ReceivedMessage ''a'' (REQUEST 9 (\<lambda>q. True)),
         ReceivedMessage ''b'' (RESPONSE 2 False None),
         Update 1 0 RAW]"
  have h1: "\<forall>p. occurrences ?rm p \<le> 1"
    by (simp add: occurrences_def ResourceManager_init_def)
  have h2: "requests_fresh ?rm ?ops"
    by (simp add: occurrences_def ResourceManager_init_def send_request_def
        ResourceManagerMessage_init_def send_message_def log_call_def)
  from one_collection_per_protocol [OF h1 h2] have "collections_holding (run ?rm (take 3 ?ops)) 1 \<le> 1"
    by blast
  with h1 h2 show ?thesis by blast
qed

text \<open>
  Claim C4 as stated speaks of any sequence of calls. \<open>send_request\<close> appends without
  looking: a protocol that asks once without a destination and once with one is in the
  waiting list and in the pending list at the same time.
\<close>

theorem send_request_twice_counterexample:
  "run (ResourceManager_init [] [])
     [SendRequest 0 None (\<lambda>p. True), SendRequest 0 (Some ''b'') (\<lambda>p. True)] =
     \<lparr>memory_manager = [], rule_manager = [], pending_protocols = [0],
      waiting_protocols = [0], protocols = [],
      calls = [SendMessage ''b'' (REQUEST 0 (\<lambda>p. True))], created = 0\<rparr>
   \<and> collections_holding
       \<lparr>memory_manager = [], rule_manager = [], pending_protocols = [0],
        waiting_protocols = [0], protocols = [],
        calls = [SendMessage ''b'' (REQUEST 0 (\<lambda>p. True))], created = 0\<rparr> 0 = 2"
  by (simp add: run_def ResourceManager_init_def send_request_def
      ResourceManagerMessage_init_def send_message_def log_call_def collections_holding_def)

subsection \<open>Exclusive claims\<close>

lemma claimants_snoc: "claimants (log @ cs) = fold claim_step cs (claimants log)"
  by (simp add: claimants_def)

lemma claim_inv_neutral:
  assumes "claim_inv rm" "claimants (calls rm') = claimants (calls rm)"
    "memory_manager rm' = memory_manager rm" "rule_manager rm' = rule_manager rm"
  shows "claim_inv rm'"
  using assms by (simp add: claim_inv_def)

lemma claim_inv_claim:
  assumes inv: "claim_inv rm" and i: "i < length (memory_manager rm)"
    and free: "memory_manager rm ! i \<noteq> OCCUPIED"
    and c: "claimants (calls rm') = (\<lambda>m. if m \<in> set [i] then claimants (calls rm) m @ [p]
                                           else claimants (calls rm) m)"
    and mm: "memory_manager rm' = (memory_manager rm)[i := OCCUPIED]"
    and rs: "rule_manager rm' = rule_manager rm"
  shows "claim_inv rm'"
proof -
  from inv free have empty: "claimants (calls rm) i = []"
    unfolding claim_inv_def by blast
  have "length (claimants (calls rm') m) \<le> 1
          \<and> (claimants (calls rm') m \<noteq> [] \<longrightarrow>
               m < length (memory_manager rm') \<and> memory_manager rm' ! m = OCCUPIED)" for m
  proof (cases "m = i")
    case True
    with empty i show ?thesis by (simp add: c mm)
  next
    case False
    with inv show ?thesis by (simp add: c mm claim_inv_def)
  qed
  moreover from inv have "\<forall>r\<in>set (rule_manager rm'). claims_own_free_slot r"
    by (simp add: rs claim_inv_def)
  ultimately show ?thesis
    unfolding claim_inv_def by blast
qed

lemma claim_inv_load_visit:
  assumes "claim_inv rm" "claims_own_free_slot r" "i < length (memory_manager rm)"
  shows "claim_inv (load_visit r i rm)"
proof (cases "is_valid r (memory_manager rm) i = []")
  case True
  then show ?thesis using assms(1) by (simp add: load_visit_def)
next
  case False
  with assms(2) assms(3) have v: "is_valid r (memory_manager rm) i = [i]"
    and free: "memory_manager rm ! i \<noteq> OCCUPIED"
    unfolding claims_own_free_slot_def by metis+
  show ?thesis
    by (rule claim_inv_claim [OF assms(1) assms(3) free, where p = "created rm"])
      (simp_all add: load_visit_def v to_occupied_def Rule_do_def log_call_def claimants_snoc
        fun_eq_iff)
qed

lemma claim_inv_load_scan:
  "claim_inv rm \<Longrightarrow> claims_own_free_slot r \<Longrightarrow> \<forall>i\<in>set ms. i < length (memory_manager rm) \<Longrightarrow>
   claim_inv (load_scan r ms rm)"
proof (induction ms arbitrary: rm)
  case Nil
  then show ?case by simp
next
  case (Cons i ms)
  have "claim_inv (load_visit r i rm)"
    using Cons.prems by (intro claim_inv_load_visit) simp_all
  moreover have "\<forall>j\<in>set ms. j < length (memory_manager (load_visit r i rm))"
    using Cons.prems(3) by (simp add: load_visit_memory)
  ultimately show ?case using Cons.IH Cons.prems(2) by simp
qed

lemma claim_inv_load:
  assumes "claim_inv rm" "claims_own_free_slot r"
  shows "claim_inv (snd (load rm r))"
proof -
  have "claim_inv (RuleManager_load r rm)"
    using assms by (simp add: claim_inv_def RuleManager_load_def)
  then show ?thesis
    using assms(2) by (simp add: load_def Let_def claim_inv_load_scan RuleManager_load_def)
qed

lemma claim_inv_update_scan:
  assumes "claim_inv rm" "\<forall>r\<in>set rs. claims_own_free_slot r" "m < length (memory_manager rm)"
  shows "claim_inv (update_scan rs m rm)"
  using assms
proof (induction rs)
  case Nil
  then show ?case by simp
next
  case (Cons r rs)
  show ?case
  proof (cases "is_valid r (memory_manager rm) m = []")
    case True
    with Cons show ?thesis by simp
  next
    case False
    from Cons.prems(2) have "claims_own_free_slot r" by simp
    with False Cons.prems(3) have v: "is_valid r (memory_manager rm) m = [m]"
      and free: "memory_manager rm ! m \<noteq> OCCUPIED"
      unfolding claims_own_free_slot_def by metis+
    have "claim_inv (to_occupied m (Rule_do r [m] rm))"
      by (rule claim_inv_claim [OF Cons.prems(1) Cons.prems(3) free, where p = "created rm"])
        (simp_all add: to_occupied_def Rule_do_def log_call_def claimants_snoc fun_eq_iff)
    then show ?thesis by (simp add: v)
  qed
qed

lemma claim_inv_memory_update:
  assumes "claim_inv rm" "MemoryManager_update m st rm = Some rm1"
  shows "claim_inv rm1 \<and> m < length (memory_manager rm1) \<and> rule_manager rm1 = rule_manager rm"
proof -
  from assms(2) have m: "m < length (memory_manager rm)"
    and rm1: "rm1 = log_call (MemoryUpdate m st) (rm\<lparr>memory_manager := (memory_manager rm)[m := st]\<rparr>)"
    by (auto simp: MemoryManager_update_def split: if_splits)
  have "length (claimants (calls rm1) k) \<le> 1
          \<and> (claimants (calls rm1) k \<noteq> [] \<longrightarrow>
               k < length (memory_manager rm1) \<and> memory_manager rm1 ! k = OCCUPIED)" for k
    using assms(1) by (cases "k = m") (simp_all add: rm1 log_call_def claimants_snoc claim_inv_def)
  moreover from assms(1) have "\<forall>r\<in>set (rule_manager rm1). claims_own_free_slot r"
    by (simp add: rm1 log_call_def claim_inv_def)
  ultimately have "claim_inv rm1"
    unfolding claim_inv_def by blast
  with m show ?thesis by (simp add: rm1 log_call_def)
qed

lemma claim_inv_update:
  assumes "claim_inv rm"
  shows "claim_inv (snd (update rm p m st))"
proof (cases "MemoryManager_update m st rm")
  case None
  with assms show ?thesis by (simp add: update_def)
next
  case (Some rm1)
  from claim_inv_memory_update [OF assms Some]
  have inv1: "claim_inv rm1" and m: "m < length (memory_manager rm1)" by simp_all
  show ?thesis
  proof (cases "list_remove p (protocols rm1)")
    case None
    with Some inv1 show ?thesis by (simp add: update_def)
  next
    case (Some ps)
    let ?rm2 = "rm1\<lparr>protocols := ps\<rparr>"
    have inv2: "claim_inv ?rm2" using inv1 by (rule claim_inv_neutral) simp_all
    then have rules: "\<forall>r\<in>set (rule_manager ?rm2). claims_own_free_slot r"
      by (simp add: claim_inv_def)
    have "claim_inv (update_scan (rule_manager ?rm2) m ?rm2)"
      using inv2 rules m by (intro claim_inv_update_scan) simp_all
    with \<open>MemoryManager_update m st rm = Some rm1\<close> Some show ?thesis
      by (simp add: update_def Let_def)
  qed
qed

lemma claim_inv_send_request: "claim_inv rm \<Longrightarrow> claim_inv (snd (send_request rm p dst f))"
  by (cases dst)
    (auto simp: send_request_def ResourceManagerMessage_init_def send_message_def log_call_def
      claimants_snoc Let_def elim!: claim_inv_neutral)

lemma claim_inv_release_memories:
  "claim_inv rm \<Longrightarrow> claim_inv (snd (release_memories p ms rm))"
proof (induction ms arbitrary: rm)
  case Nil
  then show ?case by simp
next
  case (Cons m ms)
  obtain r rm1 where u: "update rm p m RAW = (r, rm1)" by (cases "update rm p m RAW")
  then have "rm1 = snd (update rm p m RAW)" by simp
  with Cons.prems have inv1: "claim_inv rm1" by (simp add: claim_inv_update)
  show ?case
  proof (cases r)
    case (Inl e)
    with u inv1 show ?thesis by simp
  next
    case (Inr ok)
    with u Cons.IH [OF inv1] show ?thesis by simp
  qed
qed

lemma claim_inv_Protocol_release:
  "claim_inv rm \<Longrightarrow> claim_inv (snd (Protocol_release p rm))"
proof -
  assume "claim_inv rm"
  then have "claim_inv (log_call (Release p) rm)"
    by (rule claim_inv_neutral) (simp_all add: log_call_def claimants_snoc)
  then show ?thesis
    unfolding Protocol_release_def by (rule claim_inv_release_memories)
qed

lemma claim_inv_received_message:
  "claim_inv rm \<Longrightarrow> claim_inv (snd (received_message rm src msg))"
proof (cases msg)
  case (REQUEST ini f)
  assume "claim_inv rm"
  then show ?thesis
    by (rule claim_inv_neutral)
      (auto simp: REQUEST received_message_def send_message_def log_call_def claimants_snoc
        Let_def split: option.splits)
next
  case (RESPONSE p approved paired)
  assume inv: "claim_inv rm"
  show ?thesis
  proof (cases approved)
    case True
    from inv show ?thesis
      by (rule claim_inv_neutral)
        (auto simp: RESPONSE True received_message_def log_call_def claimants_snoc Let_def
          split: option.splits)
  next
    case False
    obtain r rm1 where u: "Protocol_release p rm = (r, rm1)" by (cases "Protocol_release p rm")
    then have "rm1 = snd (Protocol_release p rm)" by simp
    with inv have inv1: "claim_inv rm1" by (simp add: claim_inv_Protocol_release)
    have "claim_inv (rm1\<lparr>pending_protocols := ps\<rparr>)" for ps
      using inv1 by (rule claim_inv_neutral) simp_all
    with inv1 u show ?thesis
      by (cases r) (auto simp: RESPONSE False received_message_def split: option.splits)
  qed
qed

lemma claim_inv_init: "claim_inv (ResourceManager_init memory_array owner_protocols)"
  by (simp add: claim_inv_def ResourceManager_init_def claimants_def)

lemma claim_inv_step:
  "claim_inv rm \<Longrightarrow> (\<forall>r. c = Load r \<longrightarrow> claims_own_free_slot r) \<Longrightarrow> claim_inv (step rm c)"
  by (cases c)
    (simp_all add: claim_inv_load claim_inv_update claim_inv_send_request
      claim_inv_received_message)

lemma claim_inv_run:
  "claim_inv rm \<Longrightarrow> (\<forall>r. Load r \<in> set ops \<longrightarrow> claims_own_free_slot r) \<Longrightarrow>
   claim_inv (run rm ops)"
proof (induction ops arbitrary: rm)
  case Nil
  then show ?case by (simp add: run_def)
next
  case (Cons c ops)
  have "claim_inv (step rm c)"
    using Cons.prems by (intro claim_inv_step) auto
  then have "claim_inv (run (step rm c) ops)"
    using Cons.prems(2) by (intro Cons.IH) auto
  then show ?case by (simp add: run_Cons)
qed

text \<open>
  Claim C6, as the source has it. Let every loaded rule claim at most the memory its
  predicate is applied to, and nothing when that memory is \<open>OCCUPIED\<close>. Then after any
  sequence of calls, from a fresh manager, no memory is held by two protocols at once,
  and a held memory is \<open>OCCUPIED\<close>. A protocol holds the memories of the claim set its
  rule action was invoked on, until \<open>update\<close> next writes that memory's state.
\<close>

theorem no_double_claim:
  assumes "\<forall>r. Load r \<in> set ops \<longrightarrow> claims_own_free_slot r"
  shows "\<forall>k m. length (claimants (calls (run (ResourceManager_init memory_array owner_protocols)
                                             (take k ops))) m) \<le> 1
           \<and> (claimants (calls (run (ResourceManager_init memory_array owner_protocols)
                                   (take k ops))) m \<noteq> [] \<longrightarrow>
                memory_manager (run (ResourceManager_init memory_array owner_protocols)
                                  (take k ops)) ! m = OCCUPIED)"
proof (intro allI)
  fix k m
  have "\<forall>r. Load r \<in> set (take k ops) \<longrightarrow> claims_own_free_slot r"
    using assms by (auto dest: in_set_takeD)
  from claim_inv_run [OF claim_inv_init this]
  show "length (claimants (calls (run (ResourceManager_init memory_array owner_protocols)
                                             (take k ops))) m) \<le> 1
           \<and> (claimants (calls (run (ResourceManager_init memory_array owner_protocols)
                                   (take k ops))) m \<noteq> [] \<longrightarrow>
                memory_manager (run (ResourceManager_init memory_array owner_protocols)
                                  (take k ops)) ! m = OCCUPIED)"
    unfolding claim_inv_def by blast
qed

theorem no_double_claim_witness:
  "length (claimants (calls (run (ResourceManager_init [RAW, ENTANGLED] [5])
        (take 3 [Load \<lparr>rule_id = 1, is_valid = (\<lambda>states i. if states ! i = RAW then [i] else [])\<rparr>,
                 Update 5 0 RAW,
                 Load \<lparr>rule_id = 2, is_valid = (\<lambda>states i. if states ! i = RAW then [i] else [])\<rparr>]))) 0)
       \<le> 1"
proof -
  let ?ops = "[Load \<lparr>rule_id = 1, is_valid = (\<lambda>states i. if states ! i = RAW then [i] else [])\<rparr>,
                        Update 5 0 RAW,
                        Load \<lparr>rule_id = 2, is_valid = (\<lambda>states i. if states ! i = RAW then [i] else [])\<rparr>]"
  have h: "\<forall>r. Load r \<in> set ?ops \<longrightarrow> claims_own_free_slot r"
    by (auto simp: claims_own_free_slot_def)
  from no_double_claim [OF h, of "[RAW, ENTANGLED]" "[5]"] show ?thesis by blast
qed

text \<open>
  Claim C6 as stated speaks of every interleaving, whatever the rules. \<open>load\<close> applies
  the predicate to occupied memories as well and leaves the exclusion to the rule: after
  a rule for free memories has claimed memory 0, loading a rule that matches any state
  claims memory 0 again, so that it is \<open>OCCUPIED\<close> and held by the protocols 0 and 1.
\<close>

theorem load_twice_counterexample:
  "run (ResourceManager_init [RAW] [])
     [Load \<lparr>rule_id = 1, is_valid = (\<lambda>states i. if states ! i = RAW then [i] else [])\<rparr>,
      Load \<lparr>rule_id = 2, is_valid = (\<lambda>states i. [i])\<rparr>] =
     \<lparr>memory_manager = [OCCUPIED],
      rule_manager = [\<lparr>rule_id = 1, is_valid = (\<lambda>states i. if states ! i = RAW then [i] else [])\<rparr>,
                      \<lparr>rule_id = 2, is_valid = (\<lambda>states i. [i])\<rparr>],
      pending_protocols = [], waiting_protocols = [], protocols = [],
      calls = [ToOccupied 0, RuleDo 1 0 [0], ToOccupied 0, RuleDo 2 1 [0]], created = 2\<rparr>
   \<and> claimants [ToOccupied 0, RuleDo 1 0 [0], ToOccupied 0, RuleDo 2 1 [0]] 0 = [0, 1]"
  by (simp add: run_def load_def load_visit_def RuleManager_load_def ResourceManager_init_def
      to_occupied_def Rule_do_def log_call_def claimants_def Let_def)

subsection \<open>Loading a topology\<close>

lemma add_nodes_raises:
  "node \<in> set ns \<Longrightarrow>
   \<not> node_group node < int comm_size
     \<or> (node_group node = int rank \<and> node_type node \<noteq> BSM_NODE \<and> node_type node \<noteq> QUANTUM_ROUTER) \<Longrightarrow>
   isl (add_nodes rank comm_size ns self)"
proof (induction ns arbitrary: self)
  case Nil
  then show ?case by simp
next
  case (Cons a ns)
  show ?case
  proof (cases "a = node")
    case True
    with Cons.prems show ?thesis by auto
  next
    case False
    with Cons.prems have "node \<in> set ns" by simp
    from Cons.IH [OF this Cons.prems(2)] show ?thesis
      by (simp add: Let_def split: option.splits)
  qed
qed

lemma load_nodes_raises:
  "node \<in> set (nodes cfg) \<Longrightarrow>
   \<not> node_group node < int comm_size
     \<or> (node_group node = int rank \<and> node_type node \<noteq> BSM_NODE \<and> node_type node \<noteq> QUANTUM_ROUTER) \<Longrightarrow>
   isl (load_nodes rank comm_size cfg self)"
  by (simp add: load_nodes_def add_nodes_raises split: sum.splits)

text \<open>
  Claim C8, as the source has it. A \<open>ResourceManagerMessage\<close> of a type other than
  \<open>REQUEST\<close> or \<open>RESPONSE\<close> cannot be constructed: the constructor raises. While a
  process loads a router network, each of these raises, before the channels are built
  and so before any event runs: a parallel configuration whose \<open>process_num\<close> differs
  from the number of MPI processes; a node whose group is not less than the number of
  processes; in a parallel configuration, a timeline type of the process's own group
  that is neither \<open>sync\<close> nor \<open>async\<close>; a node of the process's own group whose type is
  neither \<open>BSMNode\<close> nor \<open>QuantumRouter\<close>.
\<close>

theorem fatal_configuration:
  "(msg_type \<noteq> ''REQUEST'' \<and> msg_type \<noteq> ''RESPONSE'' \<longrightarrow>
      isl (ResourceManagerMessage_init msg_type receiver kw))
   \<and> (is_parallel cfg = Some True \<and> int comm_size \<noteq> process_num cfg \<longrightarrow>
      load_nodes rank comm_size cfg self = Inl AssertionError)
   \<and> ((\<exists>node\<in>set (nodes cfg). \<not> node_group node < int comm_size) \<longrightarrow>
      isl (load_nodes rank comm_size cfg self))
   \<and> (is_parallel cfg = Some True \<and> int comm_size = process_num cfg
        \<and> rank < length (groups cfg)
        \<and> group_type (groups cfg ! rank) \<noteq> SYNC \<and> group_type (groups cfg ! rank) \<noteq> ASYNC \<longrightarrow>
      load_nodes rank comm_size cfg self = Inl NotImplementedError)
   \<and> ((\<exists>node\<in>set (nodes cfg). node_group node = int rank
          \<and> node_type node \<noteq> BSM_NODE \<and> node_type node \<noteq> QUANTUM_ROUTER) \<longrightarrow>
      isl (load_nodes rank comm_size cfg self))"
proof (intro conjI impI)
  assume "msg_type \<noteq> ''REQUEST'' \<and> msg_type \<noteq> ''RESPONSE''"
  then show "isl (ResourceManagerMessage_init msg_type receiver kw)"
    by (simp add: msg_unknown)
next
  assume "is_parallel cfg = Some True \<and> int comm_size \<noteq> process_num cfg"
  then show "load_nodes rank comm_size cfg self = Inl AssertionError"
    by (simp add: load_nodes_def add_timeline_def)
next
  assume "\<exists>node\<in>set (nodes cfg). \<not> node_group node < int comm_size"
  then show "isl (load_nodes rank comm_size cfg self)"
    using load_nodes_raises by blast
next
  assume "is_parallel cfg = Some True \<and> int comm_size = process_num cfg
        \<and> rank < length (groups cfg)
        \<and> group_type (groups cfg ! rank) \<noteq> SYNC \<and> group_type (groups cfg ! rank) \<noteq> ASYNC"
  then show "load_nodes rank comm_size cfg self = Inl NotImplementedError"
    by (simp add: load_nodes_def add_timeline_def list_get_def)
next
  assume "\<exists>node\<in>set (nodes cfg). node_group node = int rank
          \<and> node_type node \<noteq> BSM_NODE \<and> node_type node \<noteq> QUANTUM_ROUTER"
  then show "isl (load_nodes rank comm_size cfg self)"
    using load_nodes_raises by blast
qed

theorem fatal_configuration_witness:
  "isl (ResourceManagerMessage_init ''CANCEL'' ''resource_manager''
          \<lparr>kw_protocol = Some 1, kw_req_condition_fun = None, kw_is_approved = None,
           kw_paired_protocol = None\<rparr>)
   \<and> load_nodes 0 3
        \<lparr>stop_time = None, is_parallel = Some True, process_num = 2,
         groups = [\<lparr>group_type = ''sync''\<rparr>, \<lparr>group_type = ''sync''\<rparr>],
         lookahead = 10, ip = ''127.0.0.1'', port = 6789, nodes = [], qchannels = []\<rparr>
        RouterNetTopo_init = Inl AssertionError
   \<and> isl (load_nodes 0 2
        \<lparr>stop_time = None, is_parallel = Some True, process_num = 2,
         groups = [\<lparr>group_type = ''sync''\<rparr>, \<lparr>group_type = ''sync''\<rparr>],
         lookahead = 10, ip = ''127.0.0.1'', port = 6789,
         nodes = [\<lparr>node_seed = 0, node_type = ''QuantumRouter'', node_group = 2,
                   node_name = ''r1'', memo_size = Some 5\<rparr>],
         qchannels = []\<rparr> RouterNetTopo_init)
   \<and> load_nodes 1 2
        \<lparr>stop_time = None, is_parallel = Some True, process_num = 2,
         groups = [\<lparr>group_type = ''sync''\<rparr>, \<lparr>group_type = ''bogus''\<rparr>],
         lookahead = 10, ip = ''127.0.0.1'', port = 6789, nodes = [], qchannels = []\<rparr>
        RouterNetTopo_init = Inl NotImplementedError
   \<and> isl (load_nodes 0 1
        \<lparr>stop_time = None, is_parallel = None, process_num = 1, groups = [],
         lookahead = 0, ip = [], port = 0,
         nodes = [\<lparr>node_seed = 0, node_type = ''Repeater'', node_group = 0,
                   node_name = ''n1'', memo_size = None\<rparr>],
         qchannels = []\<rparr> RouterNetTopo_init)"
proof -
  let ?kw = "\<lparr>kw_protocol = Some 1, kw_req_condition_fun = None, kw_is_approved = None,
           kw_paired_protocol = None\<rparr>"
  let ?c2 = "\<lparr>stop_time = None, is_parallel = Some True, process_num = 2,
         groups = [\<lparr>group_type = ''sync''\<rparr>, \<lparr>group_type = ''sync''\<rparr>],
         lookahead = 10, ip = ''127.0.0.1'', port = 6789, nodes = [], qchannels = []\<rparr>"
  let ?c3 = "\<lparr>stop_time = None, is_parallel = Some True, process_num = 2,
         groups = [\<lparr>group_type = ''sync''\<rparr>, \<lparr>group_type = ''sync''\<rparr>],
         lookahead = 10, ip = ''127.0.0.1'', port = 6789,
         nodes = [\<lparr>node_seed = 0, node_type = ''QuantumRouter'', node_group = 2,
                   node_name = ''r1'', memo_size = Some 5\<rparr>],
         qchannels = []\<rparr>"
  let ?c4 = "\<lparr>stop_time = None, is_parallel = Some True, process_num = 2,
         groups = [\<lparr>group_type = ''sync''\<rparr>, \<lparr>group_type = ''bogus''\<rparr>],
         lookahead = 10, ip = ''127.0.0.1'', port = 6789, nodes = [], qchannels = []\<rparr>"
  let ?c5 = "\<lparr>stop_time = None, is_parallel = None, process_num = 1, groups = [],
         lookahead = 0, ip = [], port = 0,
         nodes = [\<lparr>node_seed = 0, node_type = ''Repeater'', node_group = 0,
                   node_name = ''n1'', memo_size = None\<rparr>],
         qchannels = []\<rparr>"
  have 1: "isl (ResourceManagerMessage_init ''CANCEL'' ''resource_manager'' ?kw)"
    using fatal_configuration [where msg_type = "''CANCEL''" and receiver = "''resource_manager''"
        and kw = ?kw, THEN conjunct1]
    by simp
  have 2: "load_nodes 0 3 ?c2 RouterNetTopo_init = Inl AssertionError"
    using fatal_configuration [where cfg = ?c2 and comm_size = 3 and rank = 0
        and self = RouterNetTopo_init, THEN conjunct2, THEN conjunct1]
    by simp
  have 3: "isl (load_nodes 0 2 ?c3 RouterNetTopo_init)"
    using fatal_configuration [where cfg = ?c3 and comm_size = 2 and rank = 0
        and self = RouterNetTopo_init, THEN conjunct2, THEN conjunct2, THEN conjunct1]
    by simp
  have 4: "load_nodes 1 2 ?c4 RouterNetTopo_init = Inl NotImplementedError"
    using fatal_configuration [where cfg = ?c4 and comm_size = 2 and rank = 1
        and self = RouterNetTopo_init, THEN conjunct2, THEN conjunct2, THEN conjunct2,
        THEN conjunct1]
    by (simp add: SYNC_def ASYNC_def)
  have 5: "isl (load_nodes 0 1 ?c5 RouterNetTopo_init)"
    using fatal_configuration [where cfg = ?c5 and comm_size = 1 and rank = 0
        and self = RouterNetTopo_init, THEN conjunct2, THEN conjunct2, THEN conjunct2,
        THEN conjunct2]
    by (simp add: BSM_NODE_def QUANTUM_ROUTER_def)
  from 1 2 3 4 5 show ?thesis by blast
qed

text \<open>
  Claim C8 as stated does not restrict the unknown timeline type and the unknown node
  type to the process's own group. The loader reads the timeline type of its own rank
  only and checks the type of a node only when the node's group is its rank: a process
  of rank 0 loads a configuration in which group 1 has an unknown timeline type and
  holds a node of unknown type, and registers that node as a foreign entity.
\<close>

theorem foreign_unknown_types_counterexample:
  "load_nodes 0 2
     \<lparr>stop_time = None, is_parallel = Some True, process_num = 2,
      groups = [\<lparr>group_type = ''sync''\<rparr>, \<lparr>group_type = ''bogus''\<rparr>],
      lookahead = 10, ip = ''127.0.0.1'', port = 6789,
      nodes = [\<lparr>node_seed = 0, node_type = ''Repeater'', node_group = 1, node_name = ''n1'',
                memo_size = None\<rparr>],
      qchannels = []\<rparr> RouterNetTopo_init =
   Inr \<lparr>tl = Some (ParallelTimeline 10 ''127.0.0.1'' 6789 None),
        bsm_to_router_map = Map.empty, topo_nodes = Map.empty,
        foreign_entities = [(''n1'', 1)]\<rparr>"
  by (simp add: load_nodes_def add_timeline_def list_get_def SYNC_def ASYNC_def
      RouterNetTopo_init_def)

subsection \<open>The swap protocol\<close>

lemma got_bits_raises:
  "split_space raw = ''got_bits'' # tok # rest \<Longrightarrow> py_int tok = Some sender \<Longrightarrow>
   Swap_received_message earlier self raw = Inl TypeError"
  by (simp add: Swap_received_message_def got_bits_def list_get_def)

text \<open>
  Claim C9. For a message \<open>got_bits\<close> with an integer sender and an integer bit count
  the claim expects the third token to be read and stored in \<open>bit_lengths[sender]\<close>
  without an exception. The source calls the token list instead of indexing it, so the
  message \<open>got_bits 0 5\<close> raises \<open>TypeError\<close>, where the intended access stores 5 at
  index 0.
\<close>

theorem got_bits_type_error:
  "Swap_received_message (\<lambda>self message. Inr self) Swap_init ''got_bits 0 5'' = Inl TypeError
   \<and> got_bits_intended Swap_init (split_space ''got_bits 0 5'') =
       Inr \<lparr>bit_lengths = [Some 5, None], sample_size = 0\<rparr>"
  by (simp add: Swap_received_message_def got_bits_def got_bits_intended_def list_get_def
      py_int_def strip_def py_unsigned_def is_digit_def digit_val_def is_space_def Swap_init_def)

end
